theory Spec2Isabelle
  imports Main "HOL-Library.Multiset"
begin

section \<open>Workflow-tree observer (scripts/diagnose-tree.ts)\<close>

subsection \<open>Data model\<close>

text \<open>
  A handoff record of \<open>log_data.entry.handoffs\<close>. Every field but \<open>type\<close> is
  optional in the source (\<open>outputs?: string[]\<close>, \<open>invocations?: Array<unknown>\<close>,
  \<open>delegated?: boolean\<close>); an absent field is \<open>None\<close>. Only the length of
  \<open>invocations\<close> is ever read, so its elements are \<open>unit\<close>.
\<close>

record Handoff =
  htype :: string
  outputs :: "string list option"
  invocations :: "unit list option"
  delegated :: "bool option"

text \<open>A log message: \<open>{ metadata?: { numCopies?: number } }\<close>.\<close>

record Metadata =
  numCopies :: "int option"

record Message =
  metadata :: "Metadata option"

record Relationship =
  predicate :: string
  peer :: string

text \<open>
  The entity returned by \<open>fetchEntity\<close> (interface \<open>LogEntry\<close>), with the nested
  \<open>properties.log_data\<close> flattened into fields.
\<close>

record LogEntry =
  log_id :: string
  status :: string
  klados_id :: string
  handoffs :: "Handoff list option"
  messages :: "Message list option"
  relationships :: "Relationship list option"

subsection \<open>Expected number of children\<close>

text \<open>
  The first loop of \<open>getExpectedChildrenCount\<close>: the first message whose
  \<open>metadata?.numCopies\<close> is defined decides.
\<close>

fun findNumCopies :: "Message list \<Rightarrow> int option" where
  "findNumCopies [] = None"
| "findNumCopies (msg # msgs) =
     (case metadata msg of
        None \<Rightarrow> findNumCopies msgs
      | Some md \<Rightarrow> (case numCopies md of None \<Rightarrow> findNumCopies msgs | Some n \<Rightarrow> Some n))"

text \<open>
  The second loop, with the running \<open>total\<close> as accumulator. The \<open>break\<close> of the
  delegated branch leaves the loop with \<open>total = -1\<close>. A handoff of any other type adds
  nothing.
\<close>

fun handoffsLoop :: "Handoff list \<Rightarrow> int \<Rightarrow> int" where
  "handoffsLoop [] tot = tot"
| "handoffsLoop (handoff # rest) tot =
     (if htype handoff = ''invoke'' \<or> htype handoff = ''pass'' then handoffsLoop rest (tot + 1)
      else if htype handoff = ''scatter'' then
        (if outputs handoff \<noteq> None \<and> length (the (outputs handoff)) > 0
           then handoffsLoop rest (tot + int (length (the (outputs handoff))))
         else if invocations handoff \<noteq> None \<and> length (the (invocations handoff)) > 0
           then handoffsLoop rest (tot + int (length (the (invocations handoff))))
         else if delegated handoff = Some True then - 1
         else handoffsLoop rest (tot + 1))
      else if htype handoff = ''gather'' then handoffsLoop rest (tot + 1)
      else handoffsLoop rest tot)"

definition getExpectedChildrenCount :: "LogEntry \<Rightarrow> int" where
  "getExpectedChildrenCount log =
     (case findNumCopies (case messages log of None \<Rightarrow> [] | Some ms \<Rightarrow> ms) of
        Some n \<Rightarrow> n
      | None \<Rightarrow>
         (let hs = (case handoffs log of None \<Rightarrow> [] | Some hs \<Rightarrow> hs)
          in if length hs = 0 then 0 else handoffsLoop hs 0))"

subsection \<open>The reference definition of section 4.3 of the specification\<close>

text \<open>
  The contribution of one handoff as the specification words it: a scatter whose
  \<open>outputs\<close> are present counts \<open>len(outputs)\<close>, else \<open>len(invocations)\<close> when those are
  present, else it is UNKNOWN when delegated, else 1. \<open>None\<close> stands for UNKNOWN.
\<close>

definition spec_contribution :: "Handoff \<Rightarrow> int option" where
  "spec_contribution h =
     (if htype h = ''invoke'' \<or> htype h = ''pass'' \<or> htype h = ''gather'' then Some 1
      else if htype h = ''scatter'' then
        (case outputs h of
           Some os \<Rightarrow> Some (int (length os))
         | None \<Rightarrow>
            (case invocations h of
               Some is \<Rightarrow> Some (int (length is))
             | None \<Rightarrow> if delegated h = Some True then None else Some 1))
      else Some 0)"

fun spec_sum :: "Handoff list \<Rightarrow> int \<Rightarrow> int" where
  "spec_sum [] tot = tot"
| "spec_sum (h # hs) tot =
     (case spec_contribution h of None \<Rightarrow> - 1 | Some c \<Rightarrow> spec_sum hs (tot + c))"

definition spec_expected_children :: "LogEntry \<Rightarrow> int" where
  "spec_expected_children log =
     (case findNumCopies (case messages log of None \<Rightarrow> [] | Some ms \<Rightarrow> ms) of
        Some n \<Rightarrow> n
      | None \<Rightarrow> spec_sum (case handoffs log of None \<Rightarrow> [] | Some hs \<Rightarrow> hs) 0)"

text \<open>
  The contribution the code gives a handoff: an \<open>outputs\<close> or \<open>invocations\<close> list counts
  only when it is present and non-empty.
\<close>

definition nonempty_list :: "'a list option \<Rightarrow> bool" where
  "nonempty_list xs = (case xs of None \<Rightarrow> False | Some ys \<Rightarrow> ys \<noteq> [])"

definition contribution :: "Handoff \<Rightarrow> int option" where
  "contribution h =
     (if htype h = ''invoke'' \<or> htype h = ''pass'' \<or> htype h = ''gather'' then Some 1
      else if htype h = ''scatter'' then
        (if nonempty_list (outputs h) then Some (int (length (the (outputs h))))
         else if nonempty_list (invocations h) then Some (int (length (the (invocations h))))
         else if delegated h = Some True then None
         else Some 1)
      else Some 0)"

text \<open>
  The expected count as a sum: the prefix of handoffs before the first UNKNOWN one is
  summed; an UNKNOWN handoff makes the whole count \<open>-1\<close>.
\<close>

definition expected_by_sum :: "LogEntry \<Rightarrow> int" where
  "expected_by_sum log =
     (case findNumCopies (case messages log of None \<Rightarrow> [] | Some ms \<Rightarrow> ms) of
        Some n \<Rightarrow> n
      | None \<Rightarrow>
         (let hs = (case handoffs log of None \<Rightarrow> [] | Some hs \<Rightarrow> hs)
          in if list_ex (\<lambda>h. contribution h = None) hs then - 1
             else sum_list (map (\<lambda>h. the (contribution h)) hs)))"

text \<open>A log whose only handoff is a scatter with an empty \<open>outputs\<close> list.\<close>

definition empty_scatter_log :: LogEntry where
  "empty_scatter_log =
     \<lparr> log_id = ''L'', status = ''done'', klados_id = ''cluster'',
       handoffs = Some [\<lparr> htype = ''scatter'', outputs = Some [], invocations = None,
                          delegated = None \<rparr>],
       messages = None, relationships = None \<rparr>"

definition three_output_log :: LogEntry where
  "three_output_log =
     \<lparr> log_id = ''S'', status = ''done'', klados_id = ''scatter'',
       handoffs = Some [\<lparr> htype = ''scatter'', outputs = Some [''a'', ''b'', ''c''],
                          invocations = None, delegated = None \<rparr>,
                        \<lparr> htype = ''invoke'', outputs = Some [''d''],
                          invocations = None, delegated = None \<rparr>],
       messages = None, relationships = None \<rparr>"

subsection \<open>Building the tree\<close>

text \<open>
  The \<open>problem\<close> field of a tree node is a formatted string in the source; here it is the
  tag with the numbers (or the status) that the string prints.
\<close>

datatype Problem = UNKNOWN_EXPECTED | MISSING_CHILDREN int nat | NOT_TERMINAL string

datatype TreeNode = TreeNode
  (node_id: string)
  (node_status: string)
  (kladosId: string)
  (expectedChildren: int)
  (actualChildren: nat)
  (children: "TreeNode list")
  (isTerminal: bool)
  (isLeaf: bool)
  (problem: "Problem option")

text \<open>
  \<open>buildTreeNode\<close> recurses over the fetched log graph, which may be cyclic, so the model
  carries fuel: the depth of recursion still allowed. \<open>OutOfFuel\<close> is the model's own
  outcome. The store is what \<open>fetchEntity\<close> answers: a log, or for an id it does not
  know an object with neither \<open>properties\<close> nor \<open>relationships\<close> (\<open>None\<close>);
  \<open>Raised\<close> is the TypeError of reading \<open>log.properties.log_data\<close> of such an object
  in \<open>getExpectedChildrenCount\<close>. The mutable \<open>visited\<close> set is passed in and
  returned.
\<close>

datatype 'a outcome = OutOfFuel | Raised | Returned 'a

fun buildTreeNode ::
    "nat \<Rightarrow> (string \<rightharpoonup> LogEntry) \<Rightarrow> string \<Rightarrow> string set \<Rightarrow> (TreeNode option \<times> string set) outcome"
  and buildChildren ::
    "nat \<Rightarrow> (string \<rightharpoonup> LogEntry) \<Rightarrow> Relationship list \<Rightarrow> string set \<Rightarrow> (TreeNode list \<times> string set) outcome"
  where
  "buildTreeNode 0 store logId visited = OutOfFuel"
| "buildTreeNode (Suc fuel) store logId visited =
     (if logId \<in> visited then Returned (None, visited)
      else
        (case store logId of
           None \<Rightarrow> Raised
         | Some log \<Rightarrow>
            (let sentTo = filter (\<lambda>r. predicate r = ''sent_to'')
                            (case relationships log of None \<Rightarrow> [] | Some rs \<Rightarrow> rs);
                 actual = length sentTo;
                 expected = getExpectedChildrenCount log;
                 terminal = (status log = ''done'' \<or> status log = ''error'');
                 leaf = (status log = ''error'' \<or> (terminal \<and> expected = 0));
                 prob = (if expected < 0 then Some UNKNOWN_EXPECTED
                         else if terminal \<and> int actual < expected
                           then Some (MISSING_CHILDREN expected actual)
                         else if \<not> terminal then Some (NOT_TERMINAL (status log))
                         else None)
             in (case buildChildren fuel store sentTo (insert logId visited) of
                   OutOfFuel \<Rightarrow> OutOfFuel
                 | Raised \<Rightarrow> Raised
                 | Returned (cs, visited') \<Rightarrow>
                     Returned (Some (TreeNode logId (status log) (klados_id log) expected actual
                                       cs terminal leaf prob), visited')))))"
| "buildChildren fuel store [] visited = Returned ([], visited)"
| "buildChildren fuel store (rel # rels) visited =
     (case buildTreeNode fuel store (peer rel) visited of
        OutOfFuel \<Rightarrow> OutOfFuel
      | Raised \<Rightarrow> Raised
      | Returned (child, visited') \<Rightarrow>
          (case buildChildren fuel store rels visited' of
             OutOfFuel \<Rightarrow> OutOfFuel
           | Raised \<Rightarrow> Raised
           | Returned (cs, visited'') \<Rightarrow>
               Returned ((case child of None \<Rightarrow> cs | Some c \<Rightarrow> c # cs), visited'')))"

subsection \<open>The completeness verdict\<close>

fun collectLeaves :: "TreeNode \<Rightarrow> TreeNode list" where
  "collectLeaves (TreeNode i s k e a cs t l p) =
     (if length cs = 0 then [TreeNode i s k e a cs t l p]
      else concat (map collectLeaves cs))"

text \<open>
  The result object \<open>{ ok, reason?, nodeId? }\<close>; the reason string is kept as its tag and
  the two numbers it prints.
\<close>

datatype Reason = ExpectedIsMinusOne | TooFewChildren nat int

record CheckResult =
  ok :: bool
  reason :: "Reason option"
  nodeId :: "string option"

fun checkAllChildrenDiscovered :: "TreeNode \<Rightarrow> CheckResult"
  and checkChildrenLoop :: "TreeNode list \<Rightarrow> CheckResult"
  where
  "checkAllChildrenDiscovered (TreeNode i s k e a cs t l p) =
     (if \<not> t then \<lparr> ok = True, reason = None, nodeId = None \<rparr>
      else if e < 0 then \<lparr> ok = False, reason = Some ExpectedIsMinusOne, nodeId = Some i \<rparr>
      else if int (length cs) < e
        then \<lparr> ok = False, reason = Some (TooFewChildren (length cs) e), nodeId = Some i \<rparr>
      else checkChildrenLoop cs)"
| "checkChildrenLoop [] = \<lparr> ok = True, reason = None, nodeId = None \<rparr>"
| "checkChildrenLoop (child # rest) =
     (let result = checkAllChildrenDiscovered child
      in if \<not> ok result then result else checkChildrenLoop rest)"

text \<open>The three lines of \<open>main\<close> that compute \<open>isComplete\<close> from the root.\<close>

definition isComplete :: "TreeNode \<Rightarrow> bool" where
  "isComplete root =
     (let leaves = collectLeaves root;
          allLeavesTerminal = list_all isTerminal leaves;
          childrenCheck = checkAllChildrenDiscovered root
      in allLeavesTerminal \<and> ok childrenCheck)"

text \<open>
  \<open>main\<close> up to the verdict: resolve \<open>first_log\<close> of the job collection, build the tree
  from an empty \<open>visited\<close> set, and decide. Of the collection only
  \<open>relationships ?? []\<close> is read, so an unknown collection has no \<open>first_log\<close>.
\<close>

datatype Diagnosis = NoFirstLog | CouldNotBuildTree | Verdict bool

definition main_diagnose :: "nat \<Rightarrow> (string \<rightharpoonup> LogEntry) \<Rightarrow> string \<Rightarrow> Diagnosis outcome" where
  "main_diagnose fuel store jobCollection =
     (case find (\<lambda>r. predicate r = ''first_log'')
             (case store jobCollection of
                None \<Rightarrow> []
              | Some collection \<Rightarrow>
                  (case relationships collection of None \<Rightarrow> [] | Some rs \<Rightarrow> rs)) of
        None \<Rightarrow> Returned NoFirstLog
      | Some firstLogRel \<Rightarrow>
         (case buildTreeNode fuel store (peer firstLogRel) {} of
            OutOfFuel \<Rightarrow> OutOfFuel
          | Raised \<Rightarrow> Raised
          | Returned (None, visited) \<Rightarrow> Returned CouldNotBuildTree
          | Returned (Some root, visited) \<Rightarrow> Returned (Verdict (isComplete root))))"

subsection \<open>Notions used to state the completeness claims\<close>

text \<open>Every node of a tree, the root first.\<close>

fun all_nodes :: "TreeNode \<Rightarrow> TreeNode list" where
  "all_nodes (TreeNode i s k e a cs t l p) =
     TreeNode i s k e a cs t l p # concat (map all_nodes cs)"

text \<open>
  The nodes \<open>checkAllChildrenDiscovered\<close> looks at: a terminal node and, recursively, its
  children; nothing at or below a node that is not terminal.
\<close>

fun checked_nodes :: "TreeNode \<Rightarrow> TreeNode list" where
  "checked_nodes (TreeNode i s k e a cs t l p) =
     (if t then TreeNode i s k e a cs t l p # concat (map checked_nodes cs) else [])"

definition has_expected_children :: "TreeNode \<Rightarrow> bool" where
  "has_expected_children n =
     (0 \<le> expectedChildren n \<and> expectedChildren n \<le> int (length (children n)))"

text \<open>
  Completeness as section 4.3 of the specification words it: (a) every leaf is terminal,
  and (b) every terminal log of the tree has at least its expected number of children and
  is not UNKNOWN (\<open>-1\<close>).
\<close>

definition spec_isComplete :: "TreeNode \<Rightarrow> bool" where
  "spec_isComplete root =
     (list_all isTerminal (collectLeaves root) \<and>
      list_all (\<lambda>n. isTerminal n \<longrightarrow>
                  expectedChildren n \<noteq> - 1 \<and> expectedChildren n \<le> int (length (children n)))
        (all_nodes root))"

text \<open>Test data: a log with the given status, handoffs and \<open>sent_to\<close> children.\<close>

definition mk_log :: "string \<Rightarrow> string \<Rightarrow> Handoff list \<Rightarrow> string list \<Rightarrow> LogEntry" where
  "mk_log i st hs kids =
     \<lparr> log_id = i, status = st, klados_id = ''stage'', handoffs = Some hs, messages = None,
       relationships = Some (map (\<lambda>c. \<lparr> predicate = ''sent_to'', peer = c \<rparr>) kids) \<rparr>"

definition invoke_handoff :: Handoff where
  "invoke_handoff =
     \<lparr> htype = ''invoke'', outputs = Some [''out''], invocations = None, delegated = None \<rparr>"

definition job_collection :: "string \<Rightarrow> LogEntry" where
  "job_collection root =
     \<lparr> log_id = ''job'', status = [], klados_id = [], handoffs = None, messages = None,
       relationships = Some [\<lparr> predicate = ''first_log'', peer = root \<rparr>] \<rparr>"

text \<open>
  A running root that has already sent to a child; the child is done and recorded two
  invoke handoffs, but has no children yet.
\<close>

definition running_root_store :: "string \<rightharpoonup> LogEntry" where
  "running_root_store =
     [''job'' \<mapsto> job_collection ''root'',
      ''root'' \<mapsto> mk_log ''root'' ''running'' [] [''c''],
      ''c'' \<mapsto> mk_log ''c'' ''done'' [invoke_handoff, invoke_handoff] []]"

definition running_root_tree :: TreeNode where
  "running_root_tree =
     TreeNode ''root'' ''running'' ''stage'' 0 1
       [TreeNode ''c'' ''done'' ''stage'' 2 0 [] True False (Some (MISSING_CHILDREN 2 0))]
       False False (Some (NOT_TERMINAL ''running''))"

text \<open>A finished two-level run: the root invoked one child, which ended without handoffs.\<close>

definition finished_store :: "string \<rightharpoonup> LogEntry" where
  "finished_store =
     [''job'' \<mapsto> job_collection ''root'',
      ''root'' \<mapsto> mk_log ''root'' ''done'' [invoke_handoff] [''c''],
      ''c'' \<mapsto> mk_log ''c'' ''done'' [] []]"

definition finished_tree :: TreeNode where
  "finished_tree =
     TreeNode ''root'' ''done'' ''stage'' 1 1
       [TreeNode ''c'' ''done'' ''stage'' 0 0 [] True True None]
       True False None"

text \<open>The log ids of a tree, in the order of \<open>all_nodes\<close>.\<close>

definition node_ids :: "TreeNode \<Rightarrow> string list" where
  "node_ids t = map node_id (all_nodes t)"

text \<open>
  A fan-in with a cycle: the root scatters to \<open>a\<close> and \<open>b\<close>, both invoke the gather log
  \<open>g\<close>, and \<open>g\<close> points back to the root.
\<close>

definition scatter_two :: Handoff where
  "scatter_two =
     \<lparr> htype = ''scatter'', outputs = Some [''x'', ''y''], invocations = None, delegated = None \<rparr>"

definition diamond_store :: "string \<rightharpoonup> LogEntry" where
  "diamond_store =
     [''job'' \<mapsto> job_collection ''root'',
      ''root'' \<mapsto> mk_log ''root'' ''done'' [scatter_two] [''a'', ''b''],
      ''a'' \<mapsto> mk_log ''a'' ''done'' [invoke_handoff] [''g''],
      ''b'' \<mapsto> mk_log ''b'' ''done'' [invoke_handoff] [''g''],
      ''g'' \<mapsto> mk_log ''g'' ''done'' [] [''root'']]"

definition diamond_tree :: TreeNode where
  "diamond_tree =
     TreeNode ''root'' ''done'' ''stage'' 2 2
       [TreeNode ''a'' ''done'' ''stage'' 1 1
          [TreeNode ''g'' ''done'' ''stage'' 0 1 [] True True None] True False None,
        TreeNode ''b'' ''done'' ''stage'' 1 1 [] True False None]
       True False None"

text \<open>
  Notions for the claim on \<open>buildTreeNode\<close>. The \<open>sent_to\<close> peers of a log, in the order
  of its relationships; \<open>reaches store visited i x\<close>: log \<open>x\<close> is reached from \<open>i\<close> along
  \<open>sent_to\<close> relationships through logs that are not in \<open>visited\<close>.
\<close>

definition sent_to_peers :: "LogEntry \<Rightarrow> string list" where
  "sent_to_peers log =
     map peer (filter (\<lambda>r. predicate r = ''sent_to'')
                 (case relationships log of None \<Rightarrow> [] | Some rs \<Rightarrow> rs))"

inductive reaches :: "(string \<rightharpoonup> LogEntry) \<Rightarrow> string set \<Rightarrow> string \<Rightarrow> string \<Rightarrow> bool"
  for store :: "string \<rightharpoonup> LogEntry" and visited :: "string set"
  where
  reaches_here: "i \<notin> visited \<Longrightarrow> reaches store visited i i"
| reaches_step: "i \<notin> visited \<Longrightarrow> store i = Some log \<Longrightarrow> p \<in> set (sent_to_peers log) \<Longrightarrow>
     reaches store visited p x \<Longrightarrow> reaches store visited i x"

text \<open>A node shows its log: every field but \<open>children\<close> is computed from the stored log.\<close>

definition shows_log :: "(string \<rightharpoonup> LogEntry) \<Rightarrow> TreeNode \<Rightarrow> bool" where
  "shows_log store n =
     (case store (node_id n) of
        None \<Rightarrow> False
      | Some log \<Rightarrow>
          node_status n = status log \<and> kladosId n = klados_id log \<and>
          expectedChildren n = getExpectedChildrenCount log \<and>
          actualChildren n = length (sent_to_peers log) \<and>
          isTerminal n = (status log = ''done'' \<or> status log = ''error'') \<and>
          isLeaf n = (status log = ''error'' \<or>
                      ((status log = ''done'' \<or> status log = ''error'') \<and>
                       getExpectedChildrenCount log = 0)) \<and>
          problem n =
            (if getExpectedChildrenCount log < 0 then Some UNKNOWN_EXPECTED
             else if (status log = ''done'' \<or> status log = ''error'') \<and>
                     int (length (sent_to_peers log)) < getExpectedChildrenCount log
               then Some (MISSING_CHILDREN (getExpectedChildrenCount log)
                            (length (sent_to_peers log)))
             else if \<not> (status log = ''done'' \<or> status log = ''error'')
               then Some (NOT_TERMINAL (status log))
             else None))"

text \<open>
  First come, first served: \<open>first_come store visited t\<close> says that the children of every
  node of \<open>t\<close> are, in the order of its \<open>sent_to\<close> relationships, the peers that were seen
  nowhere before: not in \<open>visited\<close>, not on the way down to the node, and in no part of
  the tree to the left of the peer. A peer seen before is left out; so of two parents that
  send to the same log, the one whose relationship comes first in this order gets it.
\<close>

fun first_come :: "(string \<rightharpoonup> LogEntry) \<Rightarrow> string set \<Rightarrow> TreeNode \<Rightarrow> bool"
  and first_come_list :: "(string \<rightharpoonup> LogEntry) \<Rightarrow> string set \<Rightarrow> string list \<Rightarrow> TreeNode list \<Rightarrow> bool"
  where
  "first_come store seen (TreeNode i s k e a cs t l p) =
     (i \<notin> seen \<and>
      (case store i of
         None \<Rightarrow> False
       | Some log \<Rightarrow> first_come_list store (insert i seen) (sent_to_peers log) cs))"
| "first_come_list store seen [] cs = (cs = [])"
| "first_come_list store seen (p # ps) cs =
     (if p \<in> seen then first_come_list store seen ps cs
      else
        (case cs of
           [] \<Rightarrow> False
         | c # rest \<Rightarrow>
             node_id c = p \<and> first_come store seen c \<and>
             first_come_list store (seen \<union> set (map node_id (all_nodes c))) ps rest))"

text \<open>The nodes of a tree that have a child with the given id.\<close>

definition parents_of :: "TreeNode \<Rightarrow> string \<Rightarrow> TreeNode list" where
  "parents_of t i = filter (\<lambda>n. i \<in> set (map node_id (children n))) (all_nodes t)"

text \<open>
  Extending a tree by new logs: \<open>extends P t t'\<close> holds when \<open>t'\<close> is \<open>t\<close> with new
  sub-trees, each satisfying \<open>P\<close>, attached as additional children anywhere. The log of
  a node is unchanged (id, status, stage, expected count, terminal and leaf flags); the
  \<open>sent_to\<close> count and the problem note may differ.
\<close>

inductive extends :: "(TreeNode \<Rightarrow> bool) \<Rightarrow> TreeNode \<Rightarrow> TreeNode \<Rightarrow> bool"
  and extends_list :: "(TreeNode \<Rightarrow> bool) \<Rightarrow> TreeNode list \<Rightarrow> TreeNode list \<Rightarrow> bool"
  for P :: "TreeNode \<Rightarrow> bool"
  where
  ext_node: "extends_list P cs cs' \<Longrightarrow>
     extends P (TreeNode i s k e a cs t l p) (TreeNode i s k e a' cs' t l p')"
| ext_nil: "extends_list P [] []"
| ext_keep: "extends P c c' \<Longrightarrow> extends_list P cs cs' \<Longrightarrow> extends_list P (c # cs) (c' # cs')"
| ext_new: "P n \<Longrightarrow> extends_list P cs cs' \<Longrightarrow> extends_list P cs (n # cs')"

text \<open>
  Adding logs to the store: the new logs \<open>new\<close> are written, and the log \<open>parent\<close> gets
  one more \<open>sent_to\<close> relationship, to the new log \<open>child\<close>. \<open>add_log\<close> adds a single log.
\<close>

definition add_logs ::
    "(string \<rightharpoonup> LogEntry) \<Rightarrow> string \<Rightarrow> string \<Rightarrow> (string \<rightharpoonup> LogEntry) \<Rightarrow> (string \<rightharpoonup> LogEntry)" where
  "add_logs store parent child new =
     (case store parent of
        None \<Rightarrow> store
      | Some plog \<Rightarrow>
          (store ++ new)
            (parent \<mapsto> plog\<lparr> relationships :=
                Some ((case relationships plog of None \<Rightarrow> [] | Some rs \<Rightarrow> rs) @
                      [\<lparr> predicate = ''sent_to'', peer = child \<rparr>]) \<rparr>))"

definition add_log :: "(string \<rightharpoonup> LogEntry) \<Rightarrow> string \<Rightarrow> LogEntry \<Rightarrow> (string \<rightharpoonup> LogEntry)" where
  "add_log store parent child = add_logs store parent (log_id child) [log_id child \<mapsto> child]"

text \<open>
  Test data for adding logs to the finished run: a running log; a finished log that
  recorded an invoke handoff but has no child; a finished log that sends to the old log
  \<open>c\<close>; and a finished log \<open>d\<close> with its finished child \<open>e\<close>.
\<close>

definition running_log :: LogEntry where
  "running_log = mk_log ''d'' ''running'' [] []"

definition childless_log :: LogEntry where
  "childless_log = mk_log ''d'' ''done'' [invoke_handoff] []"

definition thief_log :: LogEntry where
  "thief_log = mk_log ''d'' ''done'' [invoke_handoff] [''c'']"

definition two_new_logs :: "string \<rightharpoonup> LogEntry" where
  "two_new_logs =
     [''d'' \<mapsto> mk_log ''d'' ''done'' [invoke_handoff] [''e''],
      ''e'' \<mapsto> mk_log ''e'' ''done'' [] []]"

definition two_new_tree :: TreeNode where
  "two_new_tree =
     TreeNode ''d'' ''done'' ''stage'' 1 1
       [TreeNode ''e'' ''done'' ''stage'' 0 0 [] True True None] True False None"

section \<open>Workflow registration (scripts/register.ts)\<close>

text \<open>A parsed JSON value, the input of \<open>substituteEnvVars\<close>.\<close>

datatype json = JNull | JBool bool | JNumber int | JString string
  | JArray "json list" | JObject "(string \<times> json) list"







subsection \<open>Property assignment\<close>











subsection \<open>Substitution\<close>





subsection \<open>Notions used to state the substitution claim\<close>










section \<open>Describe worker: JSON retry with feedback (tasks/todo.md)\<close>

text \<open>
  The response of \<open>callGemini\<close>; only its \<open>content\<close> is read. The parsed result keeps
  \<open>title\<close> and \<open>label\<close> as whatever JSON value the model sent, if any.
\<close>

record GeminiResponse =
  content :: string

record DescribeResult =
  description :: string
  title :: "json option"
  label :: "json option"

definition JSON_PARSE_MAX_RETRIES :: nat where
  "JSON_PARSE_MAX_RETRIES = 3"

text \<open>
  The text appended to the user prompt on a retry (the template literal of the source):
  it quotes the error message and the first 2000 characters of the previous response,
  followed by a truncation mark when the response was longer.
\<close>

definition nl :: string where
  "nl = [CHR 0x0A]"

definition fence :: string where
  "fence = [CHR 0x60, CHR 0x60, CHR 0x60]"

definition retry_section :: "bool \<Rightarrow> string \<Rightarrow> GeminiResponse \<Rightarrow> string" where
  "retry_section update_label lastError lastResponse =
     nl @ nl @ ''## RETRY - JSON PARSE ERROR'' @ nl @ nl @
     ''Your previous response could not be parsed as valid JSON.'' @ nl @ nl @
     ''**Error:** '' @ lastError @ nl @ nl @
     ''**Your response was:**'' @ nl @
     fence @ nl @
     take 2000 (content lastResponse) @
     (if length (content lastResponse) > 2000 then ''...[truncated]'' else []) @ nl @
     fence @ nl @ nl @
     ''Please provide a valid JSON response with the required fields: title, description'' @
     (if update_label then '', label'' else []) @ ''.''"

text \<open>
  The \<open>try\<close> block: \<open>JSON.parse\<close> is a parameter that answers a parsed value or the
  message of its SyntaxError. Reading \<open>parsed.description\<close> throws a TypeError when the
  parsed value is \<open>null\<close>; for any other value without a string \<open>description\<close> the
  code throws its own error. \<open>Inl\<close> carries \<open>e.message\<close>.
\<close>

definition missing_description_message :: string where
  "missing_description_message =
     ''Missing or invalid '' @ [CHR 0x22] @ ''description'' @ [CHR 0x22] @ '' field''"

definition null_property_message :: string where
  "null_property_message = ''Cannot read properties of null (reading 'description')''"

definition property :: "json \<Rightarrow> string \<Rightarrow> json option" where
  "property v k = (case v of JObject kvs \<Rightarrow> map_of kvs k | _ \<Rightarrow> None)"

definition tryParse :: "(string \<Rightarrow> string + json) \<Rightarrow> GeminiResponse \<Rightarrow> string + DescribeResult" where
  "tryParse JSON_parse response =
     (case JSON_parse (content response) of
        Inl syntaxError \<Rightarrow> Inl syntaxError
      | Inr parsed \<Rightarrow>
         (if parsed = JNull then Inl null_property_message
          else
            (case property parsed ''description'' of
               Some (JString d) \<Rightarrow>
                 Inr \<lparr> description = d, title = property parsed ''title'',
                       label = property parsed ''label'' \<rparr>
             | _ \<Rightarrow> Inl missing_description_message)))"

text \<open>The message of the error thrown after the last attempt.\<close>

definition failure_message :: "string option \<Rightarrow> GeminiResponse option \<Rightarrow> string" where
  "failure_message lastError lastResponse =
     ''Failed to get valid JSON after 3 attempts. '' @
     ''Last error: '' @ (case lastError of None \<Rightarrow> ''null'' | Some e \<Rightarrow> e) @ ''. '' @
     ''Last response preview: '' @
     (case lastResponse of None \<Rightarrow> ''undefined'' | Some r \<Rightarrow> take 200 (content r)) @ ''...''"

text \<open>
  \<open>callGemini\<close> is the outside world: it gets a world state, the key and the two
  prompts, and answers a response or the message of the error it throws, with the next
  world state. The result of the function is \<open>Inl\<close> for a thrown error, with the world
  state it leaves behind.
\<close>

function retryLoop ::
  "('w \<Rightarrow> string \<Rightarrow> string \<Rightarrow> string \<Rightarrow> (string + GeminiResponse) \<times> 'w) \<Rightarrow>
   (string \<Rightarrow> string + json) \<Rightarrow> bool \<Rightarrow> string \<Rightarrow> string \<Rightarrow> string \<Rightarrow>
   nat \<Rightarrow> GeminiResponse option \<Rightarrow> string option \<Rightarrow> 'w \<Rightarrow>
   (string + GeminiResponse \<times> DescribeResult) \<times> 'w"
  where
  "retryLoop callGemini JSON_parse update_label apiKey systemPrompt userPrompt
      attempt lastResponse lastError w =
     (if attempt < JSON_PARSE_MAX_RETRIES then
        (let effectiveUserPrompt =
               (if lastResponse \<noteq> None \<and> lastError \<noteq> None \<and> lastError \<noteq> Some []
                then userPrompt @ retry_section update_label (the lastError) (the lastResponse)
                else userPrompt)
         in case callGemini w apiKey systemPrompt effectiveUserPrompt of
              (Inl httpError, w') \<Rightarrow> (Inl httpError, w')
            | (Inr response, w') \<Rightarrow>
                (case tryParse JSON_parse response of
                   Inr result \<Rightarrow> (Inr (response, result), w')
                 | Inl e \<Rightarrow>
                     retryLoop callGemini JSON_parse update_label apiKey systemPrompt userPrompt
                       (attempt + 1) (Some response) (Some e) w'))
      else (Inl (failure_message lastError lastResponse), w))"
  by pat_completeness auto
termination
  by (relation "measure (\<lambda>(c, p, u, k, sp, up, attempt, rest). JSON_PARSE_MAX_RETRIES - attempt)")
     (auto simp: JSON_PARSE_MAX_RETRIES_def)

definition callGeminiWithJsonRetry ::
  "('w \<Rightarrow> string \<Rightarrow> string \<Rightarrow> string \<Rightarrow> (string + GeminiResponse) \<times> 'w) \<Rightarrow>
   (string \<Rightarrow> string + json) \<Rightarrow> bool \<Rightarrow> string \<Rightarrow> string \<Rightarrow> string \<Rightarrow> 'w \<Rightarrow>
   (string + GeminiResponse \<times> DescribeResult) \<times> 'w" where
  "callGeminiWithJsonRetry callGemini JSON_parse update_label apiKey systemPrompt userPrompt w =
     retryLoop callGemini JSON_parse update_label apiKey systemPrompt userPrompt 0 None None w"



subsection \<open>Notions used to state the retry claim\<close>

text \<open>
  The calls that reach \<open>callGemini\<close> are observed from outside the function: \<open>logged\<close>
  wraps any \<open>callGemini\<close> into one that keeps, in the world state, a record of every call
  it receives, with the arguments and the answer.
\<close>

record GeminiCall =
  sent_key :: string
  sent_system :: string
  sent_prompt :: string
  answer :: "string + GeminiResponse"

definition logged ::
  "('w \<Rightarrow> string \<Rightarrow> string \<Rightarrow> string \<Rightarrow> (string + GeminiResponse) \<times> 'w) \<Rightarrow>
   'w \<times> GeminiCall list \<Rightarrow> string \<Rightarrow> string \<Rightarrow> string \<Rightarrow>
   (string + GeminiResponse) \<times> ('w \<times> GeminiCall list)" where
  "logged callGemini wl apiKey systemPrompt userPrompt =
     (case callGemini (fst wl) apiKey systemPrompt userPrompt of
        (a, w') \<Rightarrow>
          (a, (w', snd wl @ [\<lparr> sent_key = apiKey, sent_system = systemPrompt,
                               sent_prompt = userPrompt, answer = a \<rparr>])))"




text \<open>Test doubles: a parser that accepts only \<open>ok\<close>, and a model that answers \<open>bad\<close>
  until the world counter reaches a given number.\<close>

definition toy_parse :: "string \<Rightarrow> string + json" where
  "toy_parse c =
     (if c = ''ok'' then Inr (JObject [(''description'', JString ''a cluster'')])
      else Inl ''Unexpected token'')"

definition toy_gemini :: "nat \<Rightarrow> nat \<Rightarrow> string \<Rightarrow> string \<Rightarrow> string \<Rightarrow> (string + GeminiResponse) \<times> nat" where
  "toy_gemini good n apiKey systemPrompt userPrompt =
     (Inr \<lparr> content = (if n < good then ''bad'' else ''ok'') \<rparr>, n + 1)"

definition toy_call :: "string \<Rightarrow> string \<Rightarrow> GeminiCall" where
  "toy_call prompt c =
     \<lparr> sent_key = ''key'', sent_system = ''system'', sent_prompt = prompt,
       answer = Inr \<lparr> content = c \<rparr> \<rparr>"

section \<open>Cluster simulation (scripts/cluster-sim/simulate.ts)\<close>

subsection \<open>JavaScript numbers\<close>

text \<open>
  Times, delays and seeds are integer-valued JavaScript numbers (binary64). An integer
  is kept as \<open>int\<close>; a fraction as a pair \<open>(m, e)\<close> standing for \<open>m * 2 ^ e\<close>. Every
  arithmetic result is rounded to 53 significant bits, ties to even, as IEEE 754
  prescribes (exponent range and NaN are not modelled: the configuration is taken to
  hold finite integers that are themselves binary64 values).
\<close>

function bit_length :: "int \<Rightarrow> nat" where
  "bit_length n = (if n \<le> 0 then 0 else Suc (bit_length (n div 2)))"
  by pat_completeness auto
termination
  by (relation "measure nat") auto

declare bit_length.simps [simp del]

type_synonym double = "int \<times> int"

definition round_to_53 :: "int \<Rightarrow> int \<Rightarrow> double" where
  "round_to_53 m e =
     (let b = bit_length \<bar>m\<bar> in
      if b \<le> 53 then (m, e)
      else
        (let s = b - 53;
             q = \<bar>m\<bar> div 2 ^ s;
             r = \<bar>m\<bar> mod 2 ^ s;
             half = 2 ^ (s - 1);
             q' = (if r < half then q else if half < r then q + 1
                   else if even q then q else q + 1)
         in (sgn m * q', e + int s)))"

definition double_floor :: "double \<Rightarrow> int" where
  "double_floor d =
     (case d of (m, e) \<Rightarrow> if 0 \<le> e then m * 2 ^ nat e else m div 2 ^ nat (- e))"

definition number_add :: "int \<Rightarrow> int \<Rightarrow> int" where
  "number_add a b = double_floor (round_to_53 (a + b) 0)"

definition number_sub :: "int \<Rightarrow> int \<Rightarrow> int" where
  "number_sub a b = double_floor (round_to_53 (a - b) 0)"

definition number_mul :: "int \<Rightarrow> int \<Rightarrow> int" where
  "number_mul a b = double_floor (round_to_53 (a * b) 0)"

text \<open>
  \<open>p / q\<close> for \<open>0 \<le> p\<close> and \<open>0 < q\<close>: the quotient is computed to at least 55 bits with a
  sticky bit for the remainder, then rounded. (The code divides only such numbers.)
\<close>

definition number_div :: "int \<Rightarrow> int \<Rightarrow> double" where
  "number_div p q =
     (if p \<le> 0 \<or> q \<le> 0 then (0, 0)
      else
        (let sh = 55 + bit_length q - bit_length p;
             n = p * 2 ^ sh;
             sticky = (if n mod q = 0 then 0 else 1)
         in round_to_53 (2 * (n div q) + sticky) (- int sh - 1)))"

definition double_times :: "double \<Rightarrow> int \<Rightarrow> double" where
  "double_times d n = (case d of (m, e) \<Rightarrow> round_to_53 (m * n) e)"

text \<open>
  \<open>seededRandom\<close>: the closure's \<open>seed\<close> is the generator state. \<open>& 0x7fffffff\<close> keeps the
  low 31 bits of the integer, that is, its value modulo \<open>2 ^ 31\<close>.
\<close>

definition next_seed :: "int \<Rightarrow> int" where
  "next_seed seed = number_add (number_mul seed 1103515245) 12345 mod 2147483648"

definition random_of_seed :: "int \<Rightarrow> double" where
  "random_of_seed seed = number_div seed 2147483647"


subsection \<open>Types\<close>

text \<open>
  \<open>Entity\<close> (fields \<open>id\<close>, \<open>type\<close>, \<open>label\<close>, \<open>_kg_layer\<close>; the optional
  \<open>description\<close> is never read) and \<open>SimilarityEntry\<close>.
\<close>

record Entity =
  eid :: string
  etype :: string
  elabel :: string
  kg_layer :: int

record SimilarityEntry =
  peerId :: string
  score :: double

text \<open>\<open>SimulationData\<close>: \<open>collectionId\<close> and \<open>fetchedAt\<close> are never read.\<close>

record SimulationData =
  entities :: "Entity list"
  similarities :: "string \<rightharpoonup> SimilarityEntry list"

record SimConfig =
  cfg_k :: int
  arrivalSpreadMs :: int
  indexDelayMs :: int
  recheckDelayMs :: int
  followerWaitMinMs :: int
  followerWaitMaxMs :: int
  cfg_seed :: int
  verbose :: bool

datatype EventType =
    entity_arrives | entity_indexed | entity_searches | entity_rechecks
  | entity_creates_cluster | entity_joins_cluster | follower_wait_ends

text \<open>
  A cluster id is the string \<open>cluster_<n>\<close> for the value \<open>n\<close> of the counter
  \<open>nextClusterId\<close>; ids are only compared and used as keys, so the number stands for
  the string. The optional \<open>data\<close> of an event holds \<open>clusterId\<close> or \<open>peers\<close>.
\<close>

datatype EventData = ClusterIdData nat | PeersData "string list"

record Event =
  time :: int
  ev_type :: EventType
  entityId :: string
  data :: "EventData option"

record EntityState =
  arrived :: bool
  indexed :: bool
  clusterId :: "nat option"
  isClusterLeader :: bool
  processing :: bool
  waitingForFollowers :: bool
  followerWaitStartTime :: "int option"

text \<open>The member \<open>Set\<close> keeps insertion order, so it is a list without repetition.\<close>

record ClusterState =
  cluster_id :: nat
  leaderId :: string
  members :: "string list"
  createdAt :: int

text \<open>
  The mutable fields of \<open>ClusterSimulation\<close>. \<open>random_seed\<close> is the \<open>seed\<close> captured by
  the closure \<open>this.random\<close>. The \<open>clusters\<close> map keeps insertion order.
\<close>

record Sim =
  random_seed :: int
  entityStates :: "string \<rightharpoonup> EntityState"
  clusters :: "(nat \<times> ClusterState) list"
  eventQueue :: "Event list"
  currentTime :: int
  nextClusterId :: nat

subsection \<open>Containers\<close>

text \<open>\<open>Map.set\<close>, \<open>Map.delete\<close>, \<open>Set.add\<close>, \<open>Set.delete\<close> and \<open>Array.slice(0, k)\<close>.\<close>

fun map_set :: "'k \<Rightarrow> 'v \<Rightarrow> ('k \<times> 'v) list \<Rightarrow> ('k \<times> 'v) list" where
  "map_set key v [] = [(key, v)]"
| "map_set key v ((key', v') # rest) =
     (if key' = key then (key, v) # rest else (key', v') # map_set key v rest)"

definition map_delete :: "'k \<Rightarrow> ('k \<times> 'v) list \<Rightarrow> ('k \<times> 'v) list" where
  "map_delete key m = filter (\<lambda>kv. fst kv \<noteq> key) m"

definition set_add :: "'a \<Rightarrow> 'a list \<Rightarrow> 'a list" where
  "set_add x xs = (if x \<in> set xs then xs else xs @ [x])"

definition set_delete :: "'a \<Rightarrow> 'a list \<Rightarrow> 'a list" where
  "set_delete x xs = removeAll x xs"

definition slice0 :: "int \<Rightarrow> 'a list \<Rightarrow> 'a list" where
  "slice0 n xs = (if n < 0 then take (nat (int (length xs) + n)) xs else take (nat n) xs)"

text \<open>
  \<open>Array.sort\<close> with a comparator is stable: an element goes behind every element that
  does not compare greater.
\<close>

fun insert_by :: "('a \<Rightarrow> 'a \<Rightarrow> int) \<Rightarrow> 'a \<Rightarrow> 'a list \<Rightarrow> 'a list" where
  "insert_by cmp x [] = [x]"
| "insert_by cmp x (y # ys) = (if cmp x y < 0 then x # y # ys else y # insert_by cmp x ys)"

definition sort_by :: "('a \<Rightarrow> 'a \<Rightarrow> int) \<Rightarrow> 'a list \<Rightarrow> 'a list" where
  "sort_by cmp xs = foldl (\<lambda>acc x. insert_by cmp x acc) [] xs"

subsection \<open>The simulation engine\<close>

definition initial_state :: EntityState where
  "initial_state =
     \<lparr> arrived = False, indexed = False, clusterId = None, isClusterLeader = False,
       processing = False, waitingForFollowers = False, followerWaitStartTime = None \<rparr>"

text \<open>The constructor.\<close>

definition new_simulation :: "SimulationData \<Rightarrow> SimConfig \<Rightarrow> Sim" where
  "new_simulation sim_data config =
     \<lparr> random_seed = cfg_seed config,
       entityStates = foldl (\<lambda>m entity. m(eid entity \<mapsto> initial_state)) Map.empty
                        (entities sim_data),
       clusters = [],
       eventQueue = [],
       currentTime = 0,
       nextClusterId = 1 \<rparr>"

definition scheduleEvent :: "Event \<Rightarrow> Sim \<Rightarrow> Sim" where
  "scheduleEvent event s =
     s\<lparr> eventQueue := sort_by (\<lambda>a b. number_sub (time a) (time b)) (eventQueue s @ [event]) \<rparr>"

text \<open>The filter shared by \<open>getVisiblePeers\<close> and the semantic step of \<open>runFallback\<close>.\<close>

definition peer_visible :: "SimulationData \<Rightarrow> Sim \<Rightarrow> int \<Rightarrow> SimilarityEntry \<Rightarrow> bool" where
  "peer_visible sim_data s layer sim =
     (case find (\<lambda>e. eid e = peerId sim) (entities sim_data) of
        None \<Rightarrow> False
      | Some found \<Rightarrow>
          if kg_layer found \<noteq> layer then False
          else (case entityStates s (peerId sim) of
                  None \<Rightarrow> False
                | Some peerState \<Rightarrow> indexed peerState))"

definition similar_to :: "SimulationData \<Rightarrow> string \<Rightarrow> SimilarityEntry list" where
  "similar_to sim_data entity = (case similarities sim_data entity of None \<Rightarrow> [] | Some sims \<Rightarrow> sims)"

definition getVisiblePeers ::
    "SimulationData \<Rightarrow> SimConfig \<Rightarrow> Sim \<Rightarrow> string \<Rightarrow> int \<Rightarrow> SimilarityEntry list" where
  "getVisiblePeers sim_data config s entity layer =
     slice0 (cfg_k config) (filter (peer_visible sim_data s layer) (similar_to sim_data entity))"

fun findClusteredPeer :: "Sim \<Rightarrow> SimilarityEntry list \<Rightarrow> (string \<times> nat) option" where
  "findClusteredPeer s [] = None"
| "findClusteredPeer s (p # peers) =
     (case entityStates s (peerId p) of
        None \<Rightarrow> findClusteredPeer s peers
      | Some peerState \<Rightarrow>
          (case clusterId peerState of
             None \<Rightarrow> findClusteredPeer s peers
           | Some c \<Rightarrow> Some (peerId p, c)))"

definition createCluster :: "string \<Rightarrow> Sim \<Rightarrow> nat \<times> Sim" where
  "createCluster leader s =
     (let c = nextClusterId s
      in (c, s\<lparr> nextClusterId := c + 1,
                clusters := map_set c \<lparr> cluster_id = c, leaderId = leader, members = [leader],
                                        createdAt = currentTime s \<rparr> (clusters s) \<rparr>))"

text \<open>
  \<open>joinCluster\<close> adds to the cluster only if it exists, and then writes the entity's
  state; \<open>None\<close> is the TypeError of writing to a state that does not exist.
\<close>

definition joinCluster :: "string \<Rightarrow> nat \<Rightarrow> Sim \<Rightarrow> Sim option" where
  "joinCluster entity c s =
     (let s1 = (case map_of (clusters s) c of
                  None \<Rightarrow> s
                | Some cluster \<Rightarrow>
                    s\<lparr> clusters := map_set c (cluster\<lparr> members := set_add entity (members cluster) \<rparr>)
                                      (clusters s) \<rparr>)
      in case entityStates s1 entity of
           None \<Rightarrow> None
         | Some state \<Rightarrow> Some (s1\<lparr> entityStates := (entityStates s1)(entity \<mapsto> state\<lparr> clusterId := Some c \<rparr>) \<rparr>))"

definition getJitteryWait :: "SimConfig \<Rightarrow> Sim \<Rightarrow> int \<times> Sim" where
  "getJitteryWait config s =
     (let wait_range = number_sub (followerWaitMaxMs config) (followerWaitMinMs config);
          seed' = next_seed (random_seed s)
      in (number_add (followerWaitMinMs config)
            (double_floor (double_times (random_of_seed seed') wait_range)),
          s\<lparr> random_seed := seed' \<rparr>))"

text \<open>Writing fields of the state object of an entity that is known to exist.\<close>

definition update_state :: "string \<Rightarrow> (EntityState \<Rightarrow> EntityState) \<Rightarrow> Sim \<Rightarrow> Sim" where
  "update_state entity f s =
     (case entityStates s entity of
        None \<Rightarrow> s
      | Some state \<Rightarrow> s\<lparr> entityStates := (entityStates s)(entity \<mapsto> f state) \<rparr>)"

text \<open>
  The branch shared by the search with no visible peer and the recheck with no
  clustered peer: create the own cluster and schedule the end of the follower wait.
\<close>

definition create_and_wait :: "SimConfig \<Rightarrow> string \<Rightarrow> Sim \<Rightarrow> Sim" where
  "create_and_wait config entity s =
     (case createCluster entity s of
        (c, s1) \<Rightarrow>
          (let s2 = update_state entity
                      (\<lambda>st. st\<lparr> clusterId := Some c, isClusterLeader := True,
                                 waitingForFollowers := True,
                                 followerWaitStartTime := Some (currentTime s1) \<rparr>) s1
           in case getJitteryWait config s2 of
                (jitteryWait, s3) \<Rightarrow>
                  scheduleEvent \<lparr> time = number_add (currentTime s3) jitteryWait,
                                  ev_type = follower_wait_ends, entityId = entity,
                                  data = Some (ClusterIdData c) \<rparr> s3))"

text \<open>
  The inline "remove from my cluster" of \<open>runFallback\<close> (the function \<open>leaveCluster\<close> of
  the validation script).
\<close>

definition leaveCluster :: "string \<Rightarrow> nat \<Rightarrow> Sim \<Rightarrow> Sim" where
  "leaveCluster entity myClusterId s =
     (case map_of (clusters s) myClusterId of
        None \<Rightarrow> s
      | Some myCluster \<Rightarrow>
          (let ms = set_delete entity (members myCluster)
           in if length ms = 0 then s\<lparr> clusters := map_delete myClusterId (clusters s) \<rparr>
              else s\<lparr> clusters := map_set myClusterId (myCluster\<lparr> members := ms \<rparr>) (clusters s) \<rparr>))"

text \<open>The loop of the semantic step: the first peer in a cluster other than mine.\<close>

fun findOtherCluster :: "Sim \<Rightarrow> nat \<Rightarrow> SimilarityEntry list \<Rightarrow> nat option" where
  "findOtherCluster s myClusterId [] = None"
| "findOtherCluster s myClusterId (p # peers) =
     (case entityStates s (peerId p) of
        None \<Rightarrow> findOtherCluster s myClusterId peers
      | Some peerState \<Rightarrow>
          (case clusterId peerState of
             None \<Rightarrow> findOtherCluster s myClusterId peers
           | Some c \<Rightarrow> if c \<noteq> myClusterId then Some c
                       else findOtherCluster s myClusterId peers))"

text \<open>The loop of the lexicographic step and the three ways it ends.\<close>

datatype LexOutcome = ReachedSelf | JoinTheirs nat | LoopEnded

fun lexLoop :: "Sim \<Rightarrow> string \<Rightarrow> nat \<Rightarrow> Entity list \<Rightarrow> LexOutcome" where
  "lexLoop s entity myClusterId [] = LoopEnded"
| "lexLoop s entity myClusterId (ent # rest) =
     (if eid ent = entity then ReachedSelf
      else if etype ent = ''cluster_leader'' then lexLoop s entity myClusterId rest
      else
        (case entityStates s (eid ent) of
           None \<Rightarrow> lexLoop s entity myClusterId rest
         | Some peerState \<Rightarrow>
             (case clusterId peerState of
                None \<Rightarrow> lexLoop s entity myClusterId rest
              | Some c \<Rightarrow> if c \<noteq> myClusterId then JoinTheirs c
                          else lexLoop s entity myClusterId rest)))"

definition leave_and_join :: "string \<Rightarrow> nat \<Rightarrow> nat \<Rightarrow> Sim \<Rightarrow> Sim option" where
  "leave_and_join entity myClusterId theirs s =
     (case joinCluster entity theirs (leaveCluster entity myClusterId s) of
        None \<Rightarrow> None
      | Some s1 \<Rightarrow> Some (update_state entity (\<lambda>st. st\<lparr> isClusterLeader := False \<rparr>) s1))"

text \<open>
  \<open>runFallback\<close>. \<open>localeCompare\<close> is a parameter. \<open>None\<close> is the TypeError of reading
  \<open>entity.label\<close> or writing \<open>myState\<close> when the entity is unknown.
\<close>

definition runFallback ::
    "(string \<Rightarrow> string \<Rightarrow> int) \<Rightarrow> SimulationData \<Rightarrow> string \<Rightarrow> nat \<Rightarrow> int \<Rightarrow> Sim \<Rightarrow> Sim option" where
  "runFallback localeCompare sim_data entity myClusterId layer s =
     (case (entityStates s entity, find (\<lambda>e. eid e = entity) (entities sim_data)) of
        (Some myState, Some ent) \<Rightarrow>
          (let visibleSemanticPeers =
                 filter (peer_visible sim_data s layer) (similar_to sim_data entity)
           in case findOtherCluster s myClusterId visibleSemanticPeers of
                Some theirs \<Rightarrow> leave_and_join entity myClusterId theirs s
              | None \<Rightarrow>
                  (let layerEntities =
                         sort_by (\<lambda>a b. localeCompare (eid a) (eid b))
                           (filter (\<lambda>e. kg_layer e = layer) (entities sim_data))
                   in case lexLoop s entity myClusterId layerEntities of
                        ReachedSelf \<Rightarrow> Some s
                      | JoinTheirs theirs \<Rightarrow> leave_and_join entity myClusterId theirs s
                      | LoopEnded \<Rightarrow>
                          (if length layerEntities = 1
                           then Some (update_state entity
                                        (\<lambda>st. st\<lparr> clusterId := None, isClusterLeader := False \<rparr>)
                                        (s\<lparr> clusters := map_delete myClusterId (clusters s) \<rparr>))
                           else Some s)))
      | _ \<Rightarrow> None)"

definition processEvent ::
    "(string \<Rightarrow> string \<Rightarrow> int) \<Rightarrow> SimulationData \<Rightarrow> SimConfig \<Rightarrow> Event \<Rightarrow> Sim \<Rightarrow> Sim option" where
  "processEvent localeCompare sim_data config event s =
     (if ev_type event = entity_creates_cluster \<or> ev_type event = entity_joins_cluster then Some s
      else
        (case (entityStates s (entityId event),
               find (\<lambda>e. eid e = entityId event) (entities sim_data)) of
           (Some state, Some entity) \<Rightarrow>
             (case ev_type event of
                entity_arrives \<Rightarrow>
                  (let s1 = update_state (entityId event) (\<lambda>st. st\<lparr> arrived := True \<rparr>) s;
                       s2 = scheduleEvent
                              \<lparr> time = number_add (currentTime s1) (indexDelayMs config),
                                ev_type = entity_indexed, entityId = entityId event,
                                data = None \<rparr> s1
                   in Some (scheduleEvent
                              \<lparr> time = currentTime s2, ev_type = entity_searches,
                                entityId = entityId event, data = None \<rparr> s2))
              | entity_indexed \<Rightarrow>
                  Some (update_state (entityId event) (\<lambda>st. st\<lparr> indexed := True \<rparr>) s)
              | entity_searches \<Rightarrow>
                  (let s1 = update_state (entityId event) (\<lambda>st. st\<lparr> processing := True \<rparr>) s;
                       peers = getVisiblePeers sim_data config s1 (entityId event) (kg_layer entity)
                   in if length peers = 0
                      then Some (create_and_wait config (entityId event) s1)
                      else
                        (case findClusteredPeer s1 peers of
                           Some (p, c) \<Rightarrow>
                             (case joinCluster (entityId event) c s1 of
                                None \<Rightarrow> None
                              | Some s2 \<Rightarrow>
                                  Some (update_state (entityId event)
                                          (\<lambda>st. st\<lparr> processing := False \<rparr>) s2))
                         | None \<Rightarrow>
                             Some (scheduleEvent
                                     \<lparr> time = number_add (currentTime s1) (recheckDelayMs config),
                                       ev_type = entity_rechecks, entityId = entityId event,
                                       data = Some (PeersData (map peerId peers)) \<rparr> s1)))
              | entity_rechecks \<Rightarrow>
                  (let peers = getVisiblePeers sim_data config s (entityId event) (kg_layer entity)
                   in case findClusteredPeer s peers of
                        Some (p, c) \<Rightarrow>
                          (case joinCluster (entityId event) c s of
                             None \<Rightarrow> None
                           | Some s2 \<Rightarrow>
                               Some (update_state (entityId event)
                                       (\<lambda>st. st\<lparr> processing := False \<rparr>) s2))
                      | None \<Rightarrow> Some (create_and_wait config (entityId event) s))
              | follower_wait_ends \<Rightarrow>
                  (let cluster = (case data event of
                                    Some (ClusterIdData c) \<Rightarrow>
                                      (case map_of (clusters s) c of
                                         None \<Rightarrow> None
                                       | Some cl \<Rightarrow> Some (c, cl))
                                  | _ \<Rightarrow> None);
                       s1 = update_state (entityId event)
                              (\<lambda>st. st\<lparr> waitingForFollowers := False, processing := False \<rparr>) s
                   in case cluster of
                        None \<Rightarrow> Some s1
                      | Some (c, cl) \<Rightarrow>
                          if length (members cl) > 1 then Some s1
                          else runFallback localeCompare sim_data (entityId event) c
                                 (kg_layer entity) s1)
              | _ \<Rightarrow> Some s)
         | _ \<Rightarrow> None))"

subsection \<open>Running the simulation\<close>

text \<open>
  \<open>shuffle\<close>: the loop runs \<open>i\<close> from \<open>length - 1\<close> down to 1. An index \<open>j\<close> outside the
  array (possible only when \<open>random()\<close> returns exactly 1) would leave a hole, on which
  \<open>run\<close> then throws before it processes any event; this is \<open>None\<close>.
\<close>

fun shuffle_loop :: "nat \<Rightarrow> 'a list \<Rightarrow> int \<Rightarrow> ('a list \<times> int) option" where
  "shuffle_loop 0 result seed = Some (result, seed)"
| "shuffle_loop (Suc n) result seed =
     (let i = Suc n;
          seed' = next_seed seed;
          j = double_floor (double_times (random_of_seed seed') (int i + 1))
      in if 0 \<le> j \<and> nat j < length result
         then shuffle_loop n (result[i := result ! nat j, nat j := result ! i]) seed'
         else None)"

definition shuffle :: "'a list \<Rightarrow> int \<Rightarrow> ('a list \<times> int) option" where
  "shuffle array seed = shuffle_loop (length array - 1) array seed"

fun schedule_arrivals :: "SimConfig \<Rightarrow> nat \<Rightarrow> nat \<Rightarrow> Entity list \<Rightarrow> Sim \<Rightarrow> Sim" where
  "schedule_arrivals config n i [] s = s"
| "schedule_arrivals config n i (entity # rest) s =
     schedule_arrivals config n (Suc i) rest
       (scheduleEvent
          \<lparr> time = double_floor (double_times (number_div (int i) (int n)) (arrivalSpreadMs config)),
            ev_type = entity_arrives, entityId = eid entity, data = None \<rparr> s)"

text \<open>The first half of \<open>run\<close>: shuffle and schedule the arrivals.\<close>

definition start :: "SimulationData \<Rightarrow> SimConfig \<Rightarrow> Sim option" where
  "start sim_data config =
     (let s = new_simulation sim_data config
      in case shuffle (entities sim_data) (random_seed s) of
           None \<Rightarrow> None
         | Some (shuffled, seed') \<Rightarrow>
             Some (schedule_arrivals config (length shuffled) 0 shuffled
                     (s\<lparr> random_seed := seed' \<rparr>)))"

text \<open>One turn of the \<open>while\<close> loop of \<open>run\<close>; \<open>step\<close> is only used on a non-empty queue.\<close>

definition step ::
    "(string \<Rightarrow> string \<Rightarrow> int) \<Rightarrow> SimulationData \<Rightarrow> SimConfig \<Rightarrow> Sim \<Rightarrow> Sim option" where
  "step localeCompare sim_data config s =
     (case eventQueue s of
        [] \<Rightarrow> Some s
      | event # rest \<Rightarrow>
          processEvent localeCompare sim_data config event
            (s\<lparr> eventQueue := rest, currentTime := time event \<rparr>))"

fun run_loop ::
    "nat \<Rightarrow> (string \<Rightarrow> string \<Rightarrow> int) \<Rightarrow> SimulationData \<Rightarrow> SimConfig \<Rightarrow> Sim \<Rightarrow> Sim outcome" where
  "run_loop fuel localeCompare sim_data config s =
     (if eventQueue s = [] then Returned s
      else
        (case fuel of
           0 \<Rightarrow> OutOfFuel
         | Suc fuel' \<Rightarrow>
             (case step localeCompare sim_data config s of
                None \<Rightarrow> Raised
              | Some s' \<Rightarrow> run_loop fuel' localeCompare sim_data config s')))"

definition run ::
    "nat \<Rightarrow> (string \<Rightarrow> string \<Rightarrow> int) \<Rightarrow> SimulationData \<Rightarrow> SimConfig \<Rightarrow> Sim outcome" where
  "run fuel localeCompare sim_data config =
     (case start sim_data config of
        None \<Rightarrow> Raised
      | Some s \<Rightarrow> run_loop fuel localeCompare sim_data config s)"

text \<open>
  Comparison of strings by character codes, the order \<open>localeCompare\<close> gives to ids
  made of digits and capital letters (or of small letters only).
\<close>

fun compare_strings :: "string \<Rightarrow> string \<Rightarrow> int" where
  "compare_strings [] [] = 0"
| "compare_strings [] (y # ys) = - 1"
| "compare_strings (x # xs) [] = 1"
| "compare_strings (x # xs) (y # ys) =
     (if of_char x < (of_char y :: nat) then - 1
      else if of_char y < (of_char x :: nat) then 1
      else compare_strings xs ys)"

text \<open>The defaults of \<open>parseArgs\<close>, with a fixed seed.\<close>

definition default_config :: SimConfig where
  "default_config =
     \<lparr> cfg_k = 5, arrivalSpreadMs = 5000, indexDelayMs = 1000, recheckDelayMs = 10000,
       followerWaitMinMs = 30000, followerWaitMaxMs = 90000, cfg_seed = 42, verbose = False \<rparr>"

definition lone_data :: SimulationData where
  "lone_data =
     \<lparr> entities = [\<lparr> eid = ''a'', etype = ''person'', elabel = ''Ahab'', kg_layer = 0 \<rparr>],
       similarities = [''a'' \<mapsto> []] \<rparr>"


text \<open>What the claims look at in a state: who is in which cluster.\<close>

definition cluster_members :: "Sim \<Rightarrow> (nat \<times> string list) list" where
  "cluster_members s = map (\<lambda>kv. (fst kv, members (snd kv))) (clusters s)"

definition membership :: "string list \<Rightarrow> Sim \<Rightarrow> (string \<times> nat option option) list" where
  "membership ids s = map (\<lambda>i. (i, map_option clusterId (entityStates s i))) ids"

definition two_data :: SimulationData where
  "two_data =
     \<lparr> entities = [\<lparr> eid = ''b'', etype = ''ship'', elabel = ''Pequod'', kg_layer = 0 \<rparr>,
                   \<lparr> eid = ''a'', etype = ''person'', elabel = ''Ahab'', kg_layer = 0 \<rparr>],
       similarities = [''a'' \<mapsto> [\<lparr> peerId = ''b'', score = (1, 0) \<rparr>],
                       ''b'' \<mapsto> [\<lparr> peerId = ''a'', score = (1, 0) \<rparr>]] \<rparr>"

definition slow_index_config :: SimConfig where
  "slow_index_config =
     \<lparr> cfg_k = 5, arrivalSpreadMs = 200000, indexDelayMs = 1000000, recheckDelayMs = 10000,
       followerWaitMinMs = 30000, followerWaitMaxMs = 30000, cfg_seed = 42, verbose = False \<rparr>"



text \<open>Whether an entity is marked leader and whether it still waits for followers.\<close>

definition leader_flags :: "string list \<Rightarrow> Sim \<Rightarrow> (bool \<times> bool) option list" where
  "leader_flags ids s =
     map (\<lambda>i. map_option (\<lambda>st. (isClusterLeader st, waitingForFollowers st)) (entityStates s i)) ids"

text \<open>
  Notions for the two-leader claim. The simulation holds exactly the two entities \<open>x\<close>
  and \<open>y\<close>, at one layer; each is the only member of its own cluster.
\<close>

definition wait_ends :: "int \<Rightarrow> string \<Rightarrow> nat \<Rightarrow> Event" where
  "wait_ends t entity c =
     \<lparr> time = t, ev_type = follower_wait_ends, entityId = entity, data = Some (ClusterIdData c) \<rparr>"

definition two_solo_leaders ::
    "SimulationData \<Rightarrow> Sim \<Rightarrow> Entity \<Rightarrow> Entity \<Rightarrow> nat \<Rightarrow> nat \<Rightarrow> bool" where
  "two_solo_leaders sim_data s x y cx cy =
     ((entities sim_data = [x, y] \<or> entities sim_data = [y, x]) \<and>
      eid x \<noteq> eid y \<and> kg_layer x = kg_layer y \<and> cx \<noteq> cy \<and>
      map_option clusterId (entityStates s (eid x)) = Some (Some cx) \<and>
      map_option clusterId (entityStates s (eid y)) = Some (Some cy) \<and>
      (cluster_members s = [(cx, [eid x]), (cy, [eid y])] \<or>
       cluster_members s = [(cy, [eid y]), (cx, [eid x])]))"

text \<open>Exactly one cluster exists, and it holds both entities.\<close>

definition one_cluster_of_both :: "Sim \<Rightarrow> Entity \<Rightarrow> Entity \<Rightarrow> bool" where
  "one_cluster_of_both s x y =
     (case cluster_members s of
        [(c, ms)] \<Rightarrow>
          set ms = {eid x, eid y} \<and>
          map_option clusterId (entityStates s (eid x)) = Some (Some c) \<and>
          map_option clusterId (entityStates s (eid y)) = Some (Some c)
      | _ \<Rightarrow> False)"

text \<open>
  What is still to come in a state. \<open>wait_pending s u\<close>: the follower wait of \<open>u\<close> has
  not ended yet. \<open>indexed_before q v u\<close>: in the queue \<open>q\<close> the indexing of \<open>v\<close> comes
  before the end of the wait of \<open>u\<close>. \<open>sees_at_wait_end\<close>: when the wait of \<open>u\<close> ends,
  its semantic search finds \<open>v\<close>: \<open>v\<close> is in the similarity list of \<open>u\<close>, and is indexed
  by then.
\<close>

definition wait_pending :: "Sim \<Rightarrow> string \<Rightarrow> bool" where
  "wait_pending s u =
     list_ex (\<lambda>ev. ev_type ev = follower_wait_ends \<and> entityId ev = u) (eventQueue s)"

fun indexed_before :: "Event list \<Rightarrow> string \<Rightarrow> string \<Rightarrow> bool" where
  "indexed_before [] v u = False"
| "indexed_before (ev # rest) v u =
     (if ev_type ev = entity_indexed \<and> entityId ev = v then True
      else if ev_type ev = follower_wait_ends \<and> entityId ev = u then False
      else indexed_before rest v u)"

definition is_indexed :: "Sim \<Rightarrow> string \<Rightarrow> bool" where
  "is_indexed s v = (case entityStates s v of None \<Rightarrow> False | Some st \<Rightarrow> indexed st)"

definition listed :: "SimulationData \<Rightarrow> string \<Rightarrow> string \<Rightarrow> bool" where
  "listed sim_data u v = list_ex (\<lambda>p. peerId p = v) (similar_to sim_data u)"

definition sees_at_wait_end :: "SimulationData \<Rightarrow> Sim \<Rightarrow> string \<Rightarrow> string \<Rightarrow> bool" where
  "sees_at_wait_end sim_data s u v =
     (wait_pending s u \<and> listed sim_data u v \<and>
      (is_indexed s v \<or> indexed_before (eventQueue s) v u))"

text \<open>
  The two leaders \<open>x\<close>, whose id sorts first, and \<open>y\<close> will end in one cluster: the wait
  of \<open>y\<close> is still to end and \<open>x\<close> is not of type \<open>cluster_leader\<close> (the lexicographic step
  of \<open>y\<close> then joins \<open>x\<close>), or one of them finds the other in the semantic step.
\<close>

definition will_merge :: "SimulationData \<Rightarrow> Sim \<Rightarrow> Entity \<Rightarrow> Entity \<Rightarrow> bool" where
  "will_merge sim_data s x y =
     ((wait_pending s (eid y) \<and> etype x \<noteq> ''cluster_leader'') \<or>
      sees_at_wait_end sim_data s (eid y) (eid x) \<or>
      sees_at_wait_end sim_data s (eid x) (eid y))"

text \<open>The state after at most \<open>n\<close> turns of the loop of \<open>run\<close>.\<close>

fun steps ::
    "nat \<Rightarrow> (string \<Rightarrow> string \<Rightarrow> int) \<Rightarrow> SimulationData \<Rightarrow> SimConfig \<Rightarrow> Sim \<Rightarrow> Sim option" where
  "steps 0 localeCompare sim_data config s = Some s"
| "steps (Suc n) localeCompare sim_data config s =
     (if eventQueue s = [] then Some s
      else
        (case step localeCompare sim_data config s of
           None \<Rightarrow> None
         | Some s' \<Rightarrow> steps n localeCompare sim_data config s'))"

text \<open>
  Test data: the two entities of \<open>two_data\<close>, a configuration in which both arrive
  before either is indexed, and the state after the six events up to both being indexed.
\<close>

definition pequod :: Entity where
  "pequod = \<lparr> eid = ''b'', etype = ''ship'', elabel = ''Pequod'', kg_layer = 0 \<rparr>"

definition ahab :: Entity where
  "ahab = \<lparr> eid = ''a'', etype = ''person'', elabel = ''Ahab'', kg_layer = 0 \<rparr>"

definition quick_config :: SimConfig where
  "quick_config =
     \<lparr> cfg_k = 5, arrivalSpreadMs = 100, indexDelayMs = 1000, recheckDelayMs = 10000,
       followerWaitMinMs = 30000, followerWaitMaxMs = 30000, cfg_seed = 42, verbose = False \<rparr>"

definition waiting_leader :: "nat \<Rightarrow> int \<Rightarrow> EntityState" where
  "waiting_leader c t =
     \<lparr> arrived = True, indexed = True, clusterId = Some c, isClusterLeader = True,
       processing = True, waitingForFollowers = True, followerWaitStartTime = Some t \<rparr>"

definition pair_state :: Sim where
  "pair_state =
     \<lparr> random_seed = next_seed (next_seed 1250496027),
       entityStates = [''b'' \<mapsto> waiting_leader 1 0, ''a'' \<mapsto> waiting_leader 2 50],
       clusters = [(1, \<lparr> cluster_id = 1, leaderId = ''b'', members = [''b''], createdAt = 0 \<rparr>),
                   (2, \<lparr> cluster_id = 2, leaderId = ''a'', members = [''a''], createdAt = 50 \<rparr>)],
       eventQueue = [wait_ends 30000 ''b'' 1, wait_ends 30050 ''a'' 2],
       currentTime = 1050, nextClusterId = 3 \<rparr>"

text \<open>
  With \<open>slow_index_config\<close>: the state after the five events up to the creation of the
  second cluster. The wait of \<open>b\<close> is over, and neither entity is indexed before the
  wait of \<open>a\<close> ends.
\<close>

definition late_state :: Sim where
  "late_state =
     \<lparr> random_seed = next_seed (next_seed 1250496027),
       entityStates =
         [''b'' \<mapsto> \<lparr> arrived = True, indexed = False, clusterId = Some 1, isClusterLeader = True,
                     processing = False, waitingForFollowers = False,
                     followerWaitStartTime = Some 0 \<rparr>,
          ''a'' \<mapsto> \<lparr> arrived = True, indexed = False, clusterId = Some 2, isClusterLeader = True,
                     processing = True, waitingForFollowers = True,
                     followerWaitStartTime = Some 100000 \<rparr>],
       clusters = [(1, \<lparr> cluster_id = 1, leaderId = ''b'', members = [''b''], createdAt = 0 \<rparr>),
                   (2, \<lparr> cluster_id = 2, leaderId = ''a'', members = [''a''],
                         createdAt = 100000 \<rparr>)],
       eventQueue = [wait_ends 130000 ''a'' 2,
                     \<lparr> time = 1000000, ev_type = entity_indexed, entityId = ''b'', data = None \<rparr>,
                     \<lparr> time = 1100000, ev_type = entity_indexed, entityId = ''a'', data = None \<rparr>],
       currentTime = 100000, nextClusterId = 3 \<rparr>"

text \<open>
  Membership uniqueness, as checks 1 and 2 of the validation script count it: the
  clusters whose member set holds an entity are at most one, and a recorded
  \<open>clusterId\<close> names exactly that cluster.
\<close>

definition clusters_of :: "Sim \<Rightarrow> string \<Rightarrow> nat list" where
  "clusters_of s e = map fst (filter (\<lambda>kv. e \<in> set (members (snd kv))) (clusters s))"

definition membership_unique :: "Sim \<Rightarrow> bool" where
  "membership_unique s =
     (\<forall>e. length (clusters_of s e) \<le> 1 \<and>
          (\<forall>st c. entityStates s e = Some st \<and> clusterId st = Some c \<longrightarrow> clusters_of s e = [c]))"

text \<open>
  The invariant behind it. \<open>cid\<close> is the recorded cluster of an entity; a worker event
  is one of the chain arrive, search, recheck, end of wait, of which an entity has at
  most one pending; before the entity has a cluster its pending worker event finds
  \<open>clusterId\<close> null, and a pending end of wait carries the entity's own cluster.
\<close>

definition cid :: "Sim \<Rightarrow> string \<Rightarrow> nat option" where
  "cid s e = (case entityStates s e of None \<Rightarrow> None | Some st \<Rightarrow> clusterId st)"

definition worker :: "Event \<Rightarrow> bool" where
  "worker ev = (ev_type ev = entity_arrives \<or> ev_type ev = entity_searches \<or>
                ev_type ev = entity_rechecks \<or> ev_type ev = follower_wait_ends)"

definition event_ok :: "Sim \<Rightarrow> Event \<Rightarrow> bool" where
  "event_ok s ev =
     (entityId ev \<in> dom (entityStates s) \<and>
      (worker ev \<longrightarrow>
         (if ev_type ev = follower_wait_ends
          then (\<exists>c. data ev = Some (ClusterIdData c) \<and> cid s (entityId ev) = Some c)
          else cid s (entityId ev) = None)))"

definition sim_inv :: "SimulationData \<Rightarrow> Sim \<Rightarrow> bool" where
  "sim_inv sim_data s =
     (dom (entityStates s) = set (map eid (entities sim_data)) \<and>
      distinct (map fst (clusters s)) \<and>
      (\<forall>c\<in>set (map fst (clusters s)). c < nextClusterId s) \<and>
      (\<forall>c cl e. map_of (clusters s) c = Some cl \<longrightarrow>
          (e \<in> set (members cl) \<longleftrightarrow> cid s e = Some c)) \<and>
      (\<forall>e c. cid s e = Some c \<longrightarrow> c \<in> set (map fst (clusters s))) \<and>
      (\<forall>ev\<in>set (eventQueue s). event_ok s ev) \<and>
      distinct (map entityId (filter worker (eventQueue s))))"

definition core :: "Sim \<Rightarrow> bool" where
  "core s =
     (distinct (map fst (clusters s)) \<and>
      (\<forall>c\<in>set (map fst (clusters s)). c < nextClusterId s) \<and>
      (\<forall>c cl e. map_of (clusters s) c = Some cl \<longrightarrow>
          (e \<in> set (members cl) \<longleftrightarrow> cid s e = Some c)) \<and>
      (\<forall>e c. cid s e = Some c \<longrightarrow> c \<in> set (map fst (clusters s))))"

definition queue_ok :: "Sim \<Rightarrow> bool" where
  "queue_ok s =
     ((\<forall>ev\<in>set (eventQueue s). event_ok s ev) \<and>
      distinct (map entityId (filter worker (eventQueue s))))"

text \<open>The invariant at the moment an event has been taken from the queue.\<close>

definition popped :: "SimulationData \<Rightarrow> Event \<Rightarrow> Sim \<Rightarrow> bool" where
  "popped d ev s =
     (dom (entityStates s) = set (map eid (entities d)) \<and> core s \<and> event_ok s ev \<and>
      (\<forall>ev'\<in>set (eventQueue s). event_ok s ev') \<and>
      distinct (map entityId (filter worker (ev # eventQueue s))))"

subsection \<open>Results and termination of a run\<close>





text \<open>
  A measure of the queue that every turn of the loop of \<open>run\<close> decreases: an arrival
  schedules an indexing and a search, a search at most a recheck or the end of a wait,
  a recheck at most the end of a wait.
\<close>

fun weight :: "EventType \<Rightarrow> nat" where
  "weight entity_arrives = 5"
| "weight entity_searches = 3"
| "weight entity_rechecks = 2"
| "weight follower_wait_ends = 1"
| "weight entity_indexed = 1"
| "weight entity_creates_cluster = 1"
| "weight entity_joins_cluster = 1"

definition potential :: "Sim \<Rightarrow> nat" where
  "potential s = sum_list (map (\<lambda>ev. weight (ev_type ev)) (eventQueue s))"

section \<open>Verified properties\<close>

subsection \<open>Properties of the expected count\<close>

lemma handoffsLoop_Cons:
  "handoffsLoop (h # hs) tot =
     (case contribution h of None \<Rightarrow> - 1 | Some c \<Rightarrow> handoffsLoop hs (tot + c))"
proof -
  consider (inv) "htype h = ''invoke''" | (pa) "htype h = ''pass''"
    | (sc) "htype h = ''scatter''"
    | (ga) "htype h = ''gather''"
    | (other) "htype h \<noteq> ''invoke''" "htype h \<noteq> ''pass''" "htype h \<noteq> ''scatter''"
        "htype h \<noteq> ''gather''"
    by blast
  then show ?thesis
  proof cases
    case inv
    then show ?thesis by (simp add: contribution_def)
  next
    case pa
    then show ?thesis by (simp add: contribution_def)
  next
    case sc
    then show ?thesis
      by (simp add: contribution_def nonempty_list_def split: option.splits)
  next
    case ga
    then show ?thesis by (simp add: contribution_def)
  next
    case other
    then show ?thesis by (simp add: contribution_def)
  qed
qed

lemma handoffsLoop_sum:
  "handoffsLoop hs tot =
     (if list_ex (\<lambda>h. contribution h = None) hs then - 1
      else tot + sum_list (map (\<lambda>h. the (contribution h)) hs))"
proof (induction hs arbitrary: tot)
  case Nil
  show ?case by simp
next
  case (Cons h hs)
  show ?case
    unfolding handoffsLoop_Cons
    by (cases "contribution h") (simp_all add: Cons.IH)
qed

text \<open>
  Claim C1, as stated, fails: for a scatter handoff whose \<open>outputs\<close> list is present but
  empty the code falls through to the later branches and counts 1, where the reference
  definition counts \<open>len(outputs) = 0\<close>.
\<close>

theorem C1_empty_outputs_counterexample:
  "getExpectedChildrenCount empty_scatter_log \<noteq> spec_expected_children empty_scatter_log \<and>
   getExpectedChildrenCount empty_scatter_log = 1 \<and>
   spec_expected_children empty_scatter_log = 0"
  by (simp add: getExpectedChildrenCount_def spec_expected_children_def empty_scatter_log_def
      spec_contribution_def)

text \<open>
  Claim C1, amended: the expected count is the first \<open>numCopies\<close> when a message carries
  one; otherwise it is \<open>-1\<close> when some handoff is UNKNOWN, and else the sum over the
  handoffs of 1 for invoke, pass and gather and, for a scatter, the length of \<open>outputs\<close>
  when present and non-empty, else the length of \<open>invocations\<close> when present and
  non-empty, else UNKNOWN when delegated, else 1.
\<close>

theorem C1_expected_children_sum:
  "getExpectedChildrenCount log = expected_by_sum log"
  by (simp add: getExpectedChildrenCount_def expected_by_sum_def handoffsLoop_sum Let_def
      split: option.splits)

theorem C1_expected_children_sum_witness:
  "getExpectedChildrenCount three_output_log = 4 \<and> expected_by_sum three_output_log = 4 \<and>
   getExpectedChildrenCount empty_scatter_log = 1 \<and> expected_by_sum empty_scatter_log = 1"
  using C1_expected_children_sum [of three_output_log]
        C1_expected_children_sum [of empty_scatter_log]
  by (simp add: expected_by_sum_def three_output_log_def empty_scatter_log_def
      contribution_def nonempty_list_def)

subsection \<open>Properties of the completeness verdict\<close>

lemma check_ok:
  "ok (checkAllChildrenDiscovered t) = list_all has_expected_children (checked_nodes t)"
  "ok (checkChildrenLoop cs) =
     list_all (\<lambda>c. list_all has_expected_children (checked_nodes c)) cs"
proof (induction t and cs rule: checkAllChildrenDiscovered_checkChildrenLoop.induct)
  case (1 i s k e a cs t l p)
  then show ?case
    by (auto simp: has_expected_children_def list_all_iff)
next
  case 2
  show ?case by simp
next
  case (3 child rest)
  then show ?case by (simp add: Let_def)
qed

lemma isComplete_iff_checked:
  "isComplete root =
     (list_all isTerminal (collectLeaves root) \<and>
      list_all has_expected_children (checked_nodes root))"
  by (simp add: isComplete_def check_ok(1))

lemma first_log_of_job_collection:
  "find (\<lambda>r. predicate r = ''first_log'')
     (case relationships (job_collection root) of None \<Rightarrow> [] | Some rs \<Rightarrow> rs) =
   Some \<lparr> predicate = ''first_log'', peer = root \<rparr>"
  by (simp add: job_collection_def)

lemma main_diagnose_built:
  assumes "store jobCollection = Some collection"
    and "find (\<lambda>r. predicate r = ''first_log'')
           (case relationships collection of None \<Rightarrow> [] | Some rs \<Rightarrow> rs) =
         Some \<lparr> predicate = ''first_log'', peer = rootId \<rparr>"
    and "buildTreeNode fuel store rootId {} = Returned (Some root, visited)"
  shows "main_diagnose fuel store jobCollection = Returned (Verdict (isComplete root))"
  using assms by (simp add: main_diagnose_def)

lemma running_root_built:
  "buildTreeNode 3 running_root_store ''root'' {} =
     Returned (Some running_root_tree, {''c'', ''root''})"
  by (simp add: eval_nat_numeral running_root_store_def running_root_tree_def mk_log_def
      invoke_handoff_def getExpectedChildrenCount_def insert_commute)

lemma finished_built:
  "buildTreeNode 3 finished_store ''root'' {} =
     Returned (Some finished_tree, {''c'', ''root''})"
  by (simp add: eval_nat_numeral finished_store_def finished_tree_def mk_log_def
      invoke_handoff_def getExpectedChildrenCount_def insert_commute)

text \<open>
  Claim C2, as stated, fails: \<open>checkAllChildrenDiscovered\<close> answers \<open>ok\<close> at a running
  node without looking below it. With a running root whose only child is done but still
  misses its two expected children, every leaf is terminal and the observer reports
  complete, although a terminal log of the tree has fewer children than expected.
\<close>

theorem C2_running_parent_counterexample:
  "main_diagnose 3 running_root_store ''job'' = Returned (Verdict True) \<and>
   buildTreeNode 3 running_root_store ''root'' {} =
     Returned (Some running_root_tree, {''c'', ''root''}) \<and>
   isComplete running_root_tree \<and>
   \<not> spec_isComplete running_root_tree"
proof -
  have c: "isComplete running_root_tree"
    by (simp add: isComplete_def running_root_tree_def)
  have s: "\<not> spec_isComplete running_root_tree"
    by (simp add: spec_isComplete_def running_root_tree_def)
  have j: "running_root_store ''job'' = Some (job_collection ''root'')"
    by (simp add: running_root_store_def)
  have m: "main_diagnose 3 running_root_store ''job'' = Returned (Verdict True)"
    using main_diagnose_built [where store = running_root_store and jobCollection = "''job''",
        OF j first_log_of_job_collection running_root_built] c
    by simp
  show ?thesis using c s m running_root_built by simp
qed

text \<open>
  Claim C2, amended: the observer reports complete if and only if (a) every leaf of the
  tree is terminal and (b) every terminal log all of whose ancestors are terminal has a
  non-negative expected-children count (so it is not UNKNOWN) and at least that many
  children in the tree. Logs at or below a running log are not checked for (b).
\<close>

theorem C2_isComplete_iff:
  "isComplete root =
     (list_all isTerminal (collectLeaves root) \<and>
      list_all has_expected_children (checked_nodes root))"
  by (simp add: isComplete_def check_ok(1))

theorem C2_isComplete_iff_witness:
  "isComplete finished_tree = True \<and>
   list_all isTerminal (collectLeaves finished_tree) = True \<and>
   list_all has_expected_children (checked_nodes finished_tree) = True \<and>
   main_diagnose 3 finished_store ''job'' = Returned (Verdict True)"
proof -
  have l: "list_all isTerminal (collectLeaves finished_tree)"
    by (simp add: finished_tree_def)
  have h: "list_all has_expected_children (checked_nodes finished_tree)"
    by (simp add: finished_tree_def has_expected_children_def)
  have c: "isComplete finished_tree"
    using C2_isComplete_iff [of finished_tree] l h by simp
  have j: "finished_store ''job'' = Some (job_collection ''root'')"
    by (simp add: finished_store_def)
  have m: "main_diagnose 3 finished_store ''job'' = Returned (Verdict True)"
    using main_diagnose_built [where store = finished_store and jobCollection = "''job''",
        OF j first_log_of_job_collection finished_built] c
    by simp
  show ?thesis using l h c m by simp
qed

subsection \<open>Termination and shape of the built tree\<close>

lemma node_ids_simp [simp]:
  "node_ids (TreeNode i s k e a cs t l p) = i # concat (map node_ids cs)"
  by (simp add: node_ids_def [abs_def] map_concat comp_def)


lemma build_visited:
  "buildTreeNode fuel store logId visited = Returned (r, v') \<Longrightarrow>
     (case r of None \<Rightarrow> v' = visited \<and> logId \<in> visited
      | Some t \<Rightarrow> v' = visited \<union> set (node_ids t) \<and> distinct (node_ids t) \<and>
          set (node_ids t) \<inter> visited = {} \<and> node_id t = logId \<and> set (node_ids t) \<subseteq> dom store)"
  "buildChildren fuel store rels visited = Returned (cs, v') \<Longrightarrow>
     v' = visited \<union> set (concat (map node_ids cs)) \<and> distinct (concat (map node_ids cs)) \<and>
     set (concat (map node_ids cs)) \<inter> visited = {} \<and> set (concat (map node_ids cs)) \<subseteq> dom store"
proof (induction fuel store logId visited and fuel store rels visited arbitrary: r v' and cs v'
    rule: buildTreeNode_buildChildren.induct)
  case (1 store logId visited)
  then show ?case by simp
next
  case (2 fuel store logId visited)
  show ?case
  proof (cases "logId \<in> visited")
    case True
    with 2(2) show ?thesis by auto
  next
    case False
    from 2(2) False obtain log where log: "store logId = Some log"
      by (auto split: option.splits)
    let ?sentTo = "filter (\<lambda>r. predicate r = ''sent_to'')
                            (case relationships log of None \<Rightarrow> [] | Some rs \<Rightarrow> rs)"
    from 2(2) False log obtain cs where
      bc: "buildChildren fuel store ?sentTo (insert logId visited) = Returned (cs, v')"
      and r: "r = Some (TreeNode logId (status log) (klados_id log) (getExpectedChildrenCount log)
          (length ?sentTo) cs (status log = ''done'' \<or> status log = ''error'')
          (status log = ''error'' \<or> ((status log = ''done'' \<or> status log = ''error'') \<and> getExpectedChildrenCount log = 0))
          (if getExpectedChildrenCount log < 0 then Some UNKNOWN_EXPECTED
                         else if (status log = ''done'' \<or> status log = ''error'') \<and> int (length ?sentTo) < getExpectedChildrenCount log
                           then Some (MISSING_CHILDREN (getExpectedChildrenCount log) (length ?sentTo))
                         else if \<not> (status log = ''done'' \<or> status log = ''error'') then Some (NOT_TERMINAL (status log))
                         else None))"
      by (auto simp: Let_def split: outcome.splits prod.splits)
    have ih: "v' = insert logId visited \<union> set (concat (map node_ids cs)) \<and> distinct (concat (map node_ids cs)) \<and>
     set (concat (map node_ids cs)) \<inter> insert logId visited = {} \<and> set (concat (map node_ids cs)) \<subseteq> dom store"
      using 2(1) [OF False log refl refl refl refl refl refl bc] .
    show ?thesis using ih False log unfolding r by auto
  qed
next
  case (3 fuel store visited)
  then show ?case by simp
next
  case (4 fuel store rel rels visited)
  from 4(3) obtain child v1 cs1 where
    b1: "buildTreeNode fuel store (peer rel) visited = Returned (child, v1)"
    and b2: "buildChildren fuel store rels v1 = Returned (cs1, v')"
    and cs: "cs = (case child of None \<Rightarrow> cs1 | Some c \<Rightarrow> c # cs1)"
    by (auto split: outcome.splits prod.splits)
  note ih1 = 4(1) [OF b1]
  note ih2 = 4(2) [OF b1 refl b2]
  show ?case
  proof (cases child)
    case None
    with ih1 ih2 cs show ?thesis by auto
  next
    case (Some c)
    with ih1 ih2 cs show ?thesis by auto
  qed
qed

lemma card_Diff_insert_less:
  assumes "finite D" "x \<in> D" "x \<notin> V" "card (D - V) < Suc n"
  shows "card (D - insert x V) < n"
proof -
  have "D - insert x V = (D - V) - {x}" by auto
  moreover have "x \<in> D - V" using assms by simp
  moreover have "finite (D - V)" using assms by simp
  ultimately have "card (D - insert x V) = card (D - V) - 1" by simp
  moreover have "card (D - V) > 0" using \<open>x \<in> D - V\<close> \<open>finite (D - V)\<close> card_gt_0_iff by blast
  ultimately show ?thesis using assms(4) by linarith
qed

lemma build_enough_fuel:
  "finite (dom store) \<Longrightarrow> card (dom store - visited) < fuel \<Longrightarrow>
     buildTreeNode fuel store logId visited \<noteq> OutOfFuel"
  "finite (dom store) \<Longrightarrow> card (dom store - visited) < fuel \<Longrightarrow>
     buildChildren fuel store rels visited \<noteq> OutOfFuel"
proof (induction fuel store logId visited and fuel store rels visited
    rule: buildTreeNode_buildChildren.induct)
  case (1 store logId visited)
  then show ?case by simp
next
  case (2 fuel store logId visited)
  show ?case
  proof (cases "logId \<in> visited")
    case True
    then show ?thesis by simp
  next
    case False
    show ?thesis
    proof (cases "store logId")
      case None
      with False show ?thesis by simp
    next
      case (Some log)
      let ?sentTo = "filter (\<lambda>r. predicate r = ''sent_to'')
                            (case relationships log of None \<Rightarrow> [] | Some rs \<Rightarrow> rs)"
      have "logId \<in> dom store" using Some by auto
      then have "card (dom store - insert logId visited) < fuel"
        using card_Diff_insert_less [OF 2(2) _ False 2(3)] by simp
      then have "buildChildren fuel store ?sentTo (insert logId visited) \<noteq> OutOfFuel"
        using 2(1) [OF False Some refl refl refl refl refl refl 2(2)] by simp
      then show ?thesis using False Some
        by (simp add: Let_def split: outcome.splits prod.splits)
    qed
  qed
next
  case (3 fuel store visited)
  then show ?case by simp
next
  case (4 fuel store rel rels visited)
  have n1: "buildTreeNode fuel store (peer rel) visited \<noteq> OutOfFuel"
    using 4(1) [OF 4(3) 4(4)] .
  show ?case
  proof (cases "buildTreeNode fuel store (peer rel) visited")
    case OutOfFuel
    with n1 show ?thesis by simp
  next
    case Raised
    then show ?thesis by simp
  next
    case (Returned x)
    obtain child v1 where x: "x = (child, v1)" by (cases x)
    have sub: "visited \<subseteq> v1"
      using build_visited(1) [OF Returned [unfolded x]] by (auto split: option.splits)
    have "dom store - v1 \<subseteq> dom store - visited" using sub by auto
    then have "card (dom store - v1) \<le> card (dom store - visited)"
      using 4(3) by (simp add: card_mono)
    then have "card (dom store - v1) < fuel" using 4(4) by simp
    then have "buildChildren fuel store rels v1 \<noteq> OutOfFuel"
      using 4(2) [OF Returned [unfolded x] refl 4(3)] by simp
    then show ?thesis using Returned x
      by (simp split: outcome.splits prod.splits)
  qed
qed

lemma build_more_fuel:
  "buildTreeNode fuel store logId visited \<noteq> OutOfFuel \<Longrightarrow>
     buildTreeNode (fuel + k) store logId visited = buildTreeNode fuel store logId visited"
  "buildChildren fuel store rels visited \<noteq> OutOfFuel \<Longrightarrow>
     buildChildren (fuel + k) store rels visited = buildChildren fuel store rels visited"
proof (induction fuel store logId visited and fuel store rels visited
    rule: buildTreeNode_buildChildren.induct)
  case (1 store logId visited)
  then show ?case by simp
next
  case (2 fuel store logId visited)
  show ?case
  proof (cases "logId \<in> visited")
    case True
    then show ?thesis by simp
  next
    case False
    show ?thesis
    proof (cases "store logId")
      case None
      with False show ?thesis by simp
    next
      case (Some log)
      let ?sentTo = "filter (\<lambda>r. predicate r = ''sent_to'')
                            (case relationships log of None \<Rightarrow> [] | Some rs \<Rightarrow> rs)"
      have "buildChildren fuel store ?sentTo (insert logId visited) \<noteq> OutOfFuel"
        using 2(2) False Some by (auto simp: Let_def split: outcome.splits)
      then have "buildChildren (fuel + k) store ?sentTo (insert logId visited) =
          buildChildren fuel store ?sentTo (insert logId visited)"
        using 2(1) [OF False Some refl refl refl refl refl refl] by simp
      then show ?thesis using False Some by (simp add: Let_def)
    qed
  qed
next
  case (3 fuel store visited)
  then show ?case by simp
next
  case (4 fuel store rel rels visited)
  have n1: "buildTreeNode fuel store (peer rel) visited \<noteq> OutOfFuel"
    using 4(3) by (auto split: outcome.splits)
  have e1: "buildTreeNode (fuel + k) store (peer rel) visited =
      buildTreeNode fuel store (peer rel) visited"
    using 4(1) [OF n1] .
  show ?case
  proof (cases "buildTreeNode fuel store (peer rel) visited")
    case OutOfFuel
    with n1 show ?thesis by simp
  next
    case Raised
    then show ?thesis using e1 by simp
  next
    case (Returned x)
    obtain child v1 where x: "x = (child, v1)" by (cases x)
    have n2: "buildChildren fuel store rels v1 \<noteq> OutOfFuel"
      using 4(3) Returned x by (auto split: outcome.splits)
    have e2: "buildChildren (fuel + k) store rels v1 = buildChildren fuel store rels v1"
      using 4(2) [OF Returned [unfolded x] refl n2] .
    show ?thesis using Returned x e1 e2 by simp
  qed
qed

lemma sentTo_peers:
  "map peer (filter (\<lambda>r. predicate r = ''sent_to'')
      (case relationships log of None \<Rightarrow> [] | Some rs \<Rightarrow> rs)) = sent_to_peers log"
  by (simp add: sent_to_peers_def)

lemma reaches_not_visited: "reaches store V i x \<Longrightarrow> i \<notin> V \<and> x \<notin> V"
  by (induction rule: reaches.induct) auto

lemma reaches_mono: "reaches store W i x \<Longrightarrow> V \<subseteq> W \<Longrightarrow> reaches store V i x"
  by (induction rule: reaches.induct) (auto intro: reaches.intros)

lemma reaches_trans: "reaches store V i y \<Longrightarrow> reaches store V y x \<Longrightarrow> reaches store V i x"
  by (induction rule: reaches.induct) (auto intro: reaches.intros)

lemma reaches_split:
  assumes "reaches store V q x" and "store i = Some log"
  shows "x = i \<or> reaches store (insert i V) q x \<or>
         (\<exists>p\<in>set (sent_to_peers log). reaches store (insert i V) p x)"
  using assms
proof (induction rule: reaches.induct)
  case (reaches_here q)
  then show ?case by (auto intro: reaches.intros)
next
  case (reaches_step q qlog p x)
  from reaches_step.IH [OF reaches_step.prems] show ?case
  proof (elim disjE)
    assume "x = i"
    then show ?thesis by simp
  next
    assume r: "reaches store (insert i V) p x"
    show ?thesis
    proof (cases "q = i")
      case True
      then have "qlog = log" using reaches_step.hyps(2) reaches_step.prems by simp
      then show ?thesis using r reaches_step.hyps(3) by blast
    next
      case False
      then have "q \<notin> insert i V" using reaches_step.hyps(1) by simp
      then have "reaches store (insert i V) q x"
        by (rule reaches.reaches_step [where log = qlog and p = p])
           (use reaches_step.hyps r in auto)
      then show ?thesis by simp
    qed
  next
    assume "\<exists>p\<in>set (sent_to_peers log). reaches store (insert i V) p x"
    then show ?thesis by simp
  qed
qed

lemma reaches_closed:
  assumes "reaches store V q x" and "V \<subseteq> W"
    and "\<And>y z. y \<in> W \<Longrightarrow> y \<notin> V \<Longrightarrow> reaches store V y z \<Longrightarrow> z \<in> W"
  shows "x \<in> W \<or> reaches store W q x"
  using assms
proof (induction rule: reaches.induct)
  case (reaches_here q)
  then show ?case by (auto intro: reaches.intros)
next
  case (reaches_step q qlog p x)
  have ih: "x \<in> W \<or> reaches store W p x"
    using reaches_step.IH [OF reaches_step.prems] .
  show ?case
  proof (cases "x \<in> W")
    case True
    then show ?thesis by simp
  next
    case False
    then have r: "reaches store W p x" using ih by simp
    show ?thesis
    proof (cases "q \<in> W")
      case True
      have "reaches store V q x"
        by (rule reaches.reaches_step [where log = qlog and p = p])
           (use reaches_step.hyps in auto)
      then have "x \<in> W" using reaches_step.prems(2) [OF True reaches_step.hyps(1)] by simp
      then show ?thesis by simp
    next
      case False
      have "reaches store W q x"
        by (rule reaches.reaches_step [where log = qlog and p = p])
           (use False reaches_step.hyps r in auto)
      then show ?thesis by simp
    qed
  qed
qed

lemma reaches_node:
  assumes "i \<notin> V" and "store i = Some log"
  shows "{x. reaches store V i x} =
     insert i {x. \<exists>p\<in>set (sent_to_peers log). reaches store (insert i V) p x}"
proof (intro set_eqI iffI)
  fix x assume "x \<in> {x. reaches store V i x}"
  then have r: "reaches store V i x" by simp
  have "\<not> reaches store (insert i V) i x" using reaches_not_visited by fastforce
  then show "x \<in> insert i {x. \<exists>p\<in>set (sent_to_peers log). reaches store (insert i V) p x}"
    using reaches_split [OF r assms(2)] by auto
next
  fix x assume "x \<in> insert i {x. \<exists>p\<in>set (sent_to_peers log). reaches store (insert i V) p x}"
  then consider "x = i" | p where "p \<in> set (sent_to_peers log)" "reaches store (insert i V) p x"
    by auto
  then show "x \<in> {x. reaches store V i x}"
  proof cases
    case 1
    then show ?thesis using assms(1) by (auto intro: reaches.intros)
  next
    case 2
    have "reaches store V p x" using reaches_mono [OF 2(2)] by auto
    then have "reaches store V i x"
      by (rule reaches.reaches_step [where log = log and p = p, rotated 3])
         (use assms 2(1) in auto)
    then show ?thesis by simp
  qed
qed

lemma reaches_next:
  "V \<union> {x. reaches store V p x} \<union> {x. \<exists>q\<in>Q. reaches store (V \<union> {x. reaches store V p x}) q x} =
   V \<union> {x. \<exists>q\<in>insert p Q. reaches store V q x}"
proof (intro set_eqI iffI)
  fix x
  assume "x \<in> V \<union> {x. reaches store V p x} \<union>
      {x. \<exists>q\<in>Q. reaches store (V \<union> {x. reaches store V p x}) q x}"
  then show "x \<in> V \<union> {x. \<exists>q\<in>insert p Q. reaches store V q x}"
    using reaches_mono [of store "V \<union> {x. reaches store V p x}" _ x V] by auto
next
  fix x
  assume a: "x \<in> V \<union> {x. \<exists>q\<in>insert p Q. reaches store V q x}"
  let ?W = "V \<union> {x. reaches store V p x}"
  have closed: "z \<in> ?W" if "y \<in> ?W" "y \<notin> V" "reaches store V y z" for y z
    using that reaches_trans [of store V p y z] by auto
  show "x \<in> ?W \<union> {x. \<exists>q\<in>Q. reaches store ?W q x}"
  proof (cases "x \<in> ?W")
    case True
    then show ?thesis by simp
  next
    case False
    then obtain q where q: "q \<in> Q" "reaches store V q x" using a by auto
    have "x \<in> ?W \<or> reaches store ?W q x"
      by (rule reaches_closed [OF q(2)]) (use closed in auto)
    then show ?thesis using False q(1) by auto
  qed
qed

lemma build_reaches:
  "buildTreeNode fuel store logId visited = Returned (r, v') \<Longrightarrow>
     v' = visited \<union> {x. reaches store visited logId x}"
  "buildChildren fuel store rels visited = Returned (cs, v') \<Longrightarrow>
     v' = visited \<union> {x. \<exists>p\<in>set (map peer rels). reaches store visited p x}"
proof (induction fuel store logId visited and fuel store rels visited arbitrary: r v' and cs v'
    rule: buildTreeNode_buildChildren.induct)
  case (1 store logId visited)
  then show ?case by simp
next
  case (2 fuel store logId visited)
  show ?case
  proof (cases "logId \<in> visited")
    case True
    then have "{x. reaches store visited logId x} = {}"
      using reaches_not_visited by fastforce
    then show ?thesis using 2(2) True by auto
  next
    case False
    from 2(2) False obtain log where log: "store logId = Some log"
      by (auto split: option.splits)
    let ?sentTo = "filter (\<lambda>r. predicate r = ''sent_to'')
                            (case relationships log of None \<Rightarrow> [] | Some rs \<Rightarrow> rs)"
    from 2(2) False log obtain cs where
      bc: "buildChildren fuel store ?sentTo (insert logId visited) = Returned (cs, v')"
      by (auto simp: Let_def split: outcome.splits prod.splits)
    have "v' = insert logId visited \<union>
        {x. \<exists>p\<in>set (map peer ?sentTo). reaches store (insert logId visited) p x}"
      using 2(1) [OF False log refl refl refl refl refl refl bc] .
    then show ?thesis
      using reaches_node [where store = store and i = logId and V = visited and log = log, OF False log]
      by (simp add: sentTo_peers)
  qed
next
  case (3 fuel store visited)
  then show ?case by simp
next
  case (4 fuel store rel rels visited)
  from 4(3) obtain child v1 cs1 where
    b1: "buildTreeNode fuel store (peer rel) visited = Returned (child, v1)"
    and b2: "buildChildren fuel store rels v1 = Returned (cs1, v')"
    by (auto split: outcome.splits prod.splits)
  have v1: "v1 = visited \<union> {x. reaches store visited (peer rel) x}"
    using 4(1) [OF b1] .
  have "v' = v1 \<union> {x. \<exists>p\<in>set (map peer rels). reaches store v1 p x}"
    using 4(2) [OF b1 refl b2] .
  then show ?case
    unfolding v1 using reaches_next [of visited store "peer rel" "set (map peer rels)"] by simp
qed

lemma build_not_raised:
  "\<forall>x. reaches store visited logId x \<longrightarrow> x \<in> dom store \<Longrightarrow>
     buildTreeNode fuel store logId visited \<noteq> Raised"
  "\<forall>p\<in>set (map peer rels). \<forall>x. reaches store visited p x \<longrightarrow> x \<in> dom store \<Longrightarrow>
     buildChildren fuel store rels visited \<noteq> Raised"
proof (induction fuel store logId visited and fuel store rels visited
    rule: buildTreeNode_buildChildren.induct)
  case (1 store logId visited)
  then show ?case by simp
next
  case (2 fuel store logId visited)
  show ?case
  proof (cases "logId \<in> visited")
    case True
    then show ?thesis by simp
  next
    case False
    then have "reaches store visited logId logId" by (rule reaches_here)
    from 2(2) [rule_format, OF this] obtain log where log: "store logId = Some log"
      by auto
    let ?sentTo = "filter (\<lambda>r. predicate r = ''sent_to'')
                            (case relationships log of None \<Rightarrow> [] | Some rs \<Rightarrow> rs)"
    have "\<forall>p\<in>set (map peer ?sentTo). \<forall>x. reaches store (insert logId visited) p x \<longrightarrow>
        x \<in> dom store"
    proof (intro ballI allI impI)
      fix p x assume p: "p \<in> set (map peer ?sentTo)"
        and r: "reaches store (insert logId visited) p x"
      have sub: "visited \<subseteq> insert logId visited" by auto
      have r1: "reaches store visited p x" using reaches_mono [OF r sub] .
      have p1: "p \<in> set (sent_to_peers log)" using p by (simp add: sent_to_peers_def)
      have "reaches store visited logId x"
        by (rule reaches_step [where log = log and p = p]) (fact False log p1 r1)+
      then show "x \<in> dom store" by (rule 2(2) [rule_format])
    qed
    then have "buildChildren fuel store ?sentTo (insert logId visited) \<noteq> Raised"
      using 2(1) [OF False log refl refl refl refl refl refl] by simp
    then show ?thesis using False log
      by (simp add: Let_def split: outcome.splits prod.splits)
  qed
next
  case (3 fuel store visited)
  then show ?case by simp
next
  case (4 fuel store rel rels visited)
  have "\<forall>x. reaches store visited (peer rel) x \<longrightarrow> x \<in> dom store"
    using 4(3) by simp
  then have n1: "buildTreeNode fuel store (peer rel) visited \<noteq> Raised"
    by (rule 4(1))
  show ?case
  proof (cases "buildTreeNode fuel store (peer rel) visited")
    case OutOfFuel
    then show ?thesis by simp
  next
    case Raised
    with n1 show ?thesis by simp
  next
    case (Returned x)
    obtain child v1 where x: "x = (child, v1)" by (cases x)
    have sub: "visited \<subseteq> v1"
      using build_reaches(1) [OF Returned [unfolded x]] by auto
    have "\<forall>p\<in>set (map peer rels). \<forall>x. reaches store v1 p x \<longrightarrow> x \<in> dom store"
    proof (intro ballI allI impI)
      fix p y assume p: "p \<in> set (map peer rels)" and r: "reaches store v1 p y"
      have "reaches store visited p y" using reaches_mono [OF r sub] .
      moreover have "p \<in> set (map peer (rel # rels))" using p by simp
      ultimately show "y \<in> dom store" using 4(3) by blast
    qed
    then have "buildChildren fuel store rels v1 \<noteq> Raised"
      using 4(2) [OF Returned [unfolded x] refl] by simp
    then show ?thesis using Returned x
      by (simp split: outcome.splits prod.splits)
  qed
qed

lemma node_id_in_node_ids: "node_id t \<in> set (node_ids t)"
  by (cases t) simp

lemma build_first_come:
  "buildTreeNode fuel store logId visited = Returned (Some t, v') \<Longrightarrow>
     first_come store visited t \<and> list_all (shows_log store) (all_nodes t)"
  "buildChildren fuel store rels visited = Returned (cs, v') \<Longrightarrow>
     first_come_list store visited (map peer rels) cs \<and>
     (\<forall>c\<in>set cs. list_all (shows_log store) (all_nodes c))"
proof (induction fuel store logId visited and fuel store rels visited arbitrary: t v' and cs v'
    rule: buildTreeNode_buildChildren.induct)
  case (1 store logId visited)
  then show ?case by simp
next
  case (2 fuel store logId visited)
  from 2(2) have nv: "logId \<notin> visited" by (auto split: if_splits)
  from 2(2) nv obtain log where log: "store logId = Some log"
    by (auto split: option.splits)
  let ?sentTo = "filter (\<lambda>r. predicate r = ''sent_to'')
                          (case relationships log of None \<Rightarrow> [] | Some rs \<Rightarrow> rs)"
  from 2(2) nv log obtain cs where
    bc: "buildChildren fuel store ?sentTo (insert logId visited) = Returned (cs, v')"
    and t: "t = TreeNode logId (status log) (klados_id log) (getExpectedChildrenCount log)
        (length ?sentTo) cs (status log = ''done'' \<or> status log = ''error'')
        (status log = ''error'' \<or> ((status log = ''done'' \<or> status log = ''error'') \<and> getExpectedChildrenCount log = 0))
        (if getExpectedChildrenCount log < 0 then Some UNKNOWN_EXPECTED
                       else if (status log = ''done'' \<or> status log = ''error'') \<and> int (length ?sentTo) < getExpectedChildrenCount log
                         then Some (MISSING_CHILDREN (getExpectedChildrenCount log) (length ?sentTo))
                       else if \<not> (status log = ''done'' \<or> status log = ''error'') then Some (NOT_TERMINAL (status log))
                       else None)"
    by (auto simp: Let_def split: outcome.splits prod.splits)
  have ih: "first_come_list store (insert logId visited) (map peer ?sentTo) cs \<and>
     (\<forall>c\<in>set cs. list_all (shows_log store) (all_nodes c))"
    using 2(1) [OF nv log refl refl refl refl refl refl bc] .
  have len: "length ?sentTo = length (sent_to_peers log)" by (simp add: sent_to_peers_def)
  have sh: "shows_log store t"
    unfolding t shows_log_def by (simp add: log len)
  have fc: "first_come store visited t"
    unfolding t using ih nv log by (simp add: sentTo_peers)
  have "all_nodes t = t # concat (map all_nodes cs)"
    unfolding t by simp
  then have "list_all (shows_log store) (all_nodes t)"
    using sh ih by (simp add: list_all_iff)
  then show ?case using fc by simp
next
  case (3 fuel store visited)
  then show ?case by simp
next
  case (4 fuel store rel rels visited)
  from 4(3) obtain child v1 cs1 where
    b1: "buildTreeNode fuel store (peer rel) visited = Returned (child, v1)"
    and b2: "buildChildren fuel store rels v1 = Returned (cs1, v')"
    and cs: "cs = (case child of None \<Rightarrow> cs1 | Some c \<Rightarrow> c # cs1)"
    by (auto split: outcome.splits prod.splits)
  note bv = build_visited(1) [OF b1]
  note ih2 = 4(2) [OF b1 refl b2]
  show ?case
  proof (cases child)
    case None
    then have "peer rel \<in> visited" "v1 = visited" using bv by auto
    then show ?thesis using ih2 cs None by simp
  next
    case (Some c)
    have ih1: "first_come store visited c \<and> list_all (shows_log store) (all_nodes c)"
      using 4(1) [OF b1 [unfolded Some]] .
    have c: "v1 = visited \<union> set (node_ids c)" "node_id c = peer rel"
      using bv Some by auto
    have "set (node_ids c) \<inter> visited = {}" using bv Some by simp
    then have nv: "peer rel \<notin> visited" using node_id_in_node_ids [of c] c(2) by auto
    show ?thesis using ih1 ih2 cs Some c nv by (simp add: node_ids_def)
  qed
qed

lemma build_tree:
  assumes "finite (dom store)" and "card (dom store - visited) < fuel"
    and "logId \<notin> visited" and "\<forall>x. reaches store visited logId x \<longrightarrow> x \<in> dom store"
  obtains t where
    "buildTreeNode fuel store logId visited = Returned (Some t, visited \<union> set (node_ids t))"
    "node_id t = logId" "distinct (node_ids t)"
    "set (node_ids t) = {x. reaches store visited logId x}"
    "list_all (shows_log store) (all_nodes t)" "first_come store visited t"
proof -
  have "buildTreeNode fuel store logId visited \<noteq> OutOfFuel"
    using build_enough_fuel(1) [OF assms(1,2)] .
  moreover have "buildTreeNode fuel store logId visited \<noteq> Raised"
    using build_not_raised(1) [OF assms(4)] .
  ultimately obtain r v' where b: "buildTreeNode fuel store logId visited = Returned (r, v')"
    by (cases "buildTreeNode fuel store logId visited") auto
  from build_visited(1) [OF b] assms(3) obtain t where r: "r = Some t"
    by (cases r) auto
  note bv = build_visited(1) [OF b [unfolded r], simplified]
  have re: "v' = visited \<union> {x. reaches store visited logId x}"
    using build_reaches(1) [OF b] .
  have "set (node_ids t) = {x. reaches store visited logId x}"
  proof -
    have "{x. reaches store visited logId x} \<inter> visited = {}"
      using reaches_not_visited by fastforce
    then show ?thesis using bv re by blast
  qed
  then show ?thesis
    using that [of t] b r bv build_first_come(1) [OF b [unfolded r]] by simp
qed

lemma closed_reaches:
  assumes "reaches store V i x" and "i \<in> dom store"
    and "\<And>j log. store j = Some log \<Longrightarrow> set (sent_to_peers log) \<subseteq> dom store"
  shows "x \<in> dom store"
  using assms
proof (induction rule: reaches.induct)
  case (reaches_here i)
  then show ?case by simp
next
  case (reaches_step i log p x)
  have "p \<in> dom store" using reaches_step.prems(2) [OF reaches_step.hyps(2)] reaches_step.hyps(3)
    by auto
  then show ?case using reaches_step.IH reaches_step.prems(2) by blast
qed

text \<open>A log below the root of a tree of distinct logs is the child of exactly one node.\<close>

lemma parents_of_simp:
  "parents_of (TreeNode i s k e a cs t l p) x =
     (if x \<in> set (map node_id cs) then [TreeNode i s k e a cs t l p] else []) @
     concat (map (\<lambda>c. parents_of c x) cs)"
  by (simp add: parents_of_def [abs_def] filter_concat comp_def)

lemma parents_outside: "x \<notin> set (node_ids t) \<Longrightarrow> parents_of t x = []"
proof (induction t rule: all_nodes.induct)
  case (1 i s k e a cs t l p)
  have "x \<notin> set (map node_id cs)" using 1(2) node_id_in_node_ids by fastforce
  moreover have "parents_of c x = []" if "c \<in> set cs" for c
    using 1(1) [OF that] 1(2) that by auto
  ultimately show ?case by (simp add: parents_of_simp)
qed

lemma concat_one:
  assumes "c \<in> set cs" and "distinct cs" and "\<And>d. d \<in> set cs \<Longrightarrow> d \<noteq> c \<Longrightarrow> f d = []"
  shows "concat (map f cs) = f c"
  using assms
proof (induction cs)
  case Nil
  then show ?case by simp
next
  case (Cons a cs)
  show ?case
  proof (cases "a = c")
    case True
    then have "c \<notin> set cs" using Cons.prems(2) by simp
    then have "concat (map f cs) = []" using Cons.prems(3) by auto
    then show ?thesis using True by simp
  next
    case False
    then have "f a = []" using Cons.prems(3) by simp
    moreover have "concat (map f cs) = f c"
      using Cons.IH Cons.prems False by auto
    ultimately show ?thesis by simp
  qed
qed

lemma distinct_concat_unique:
  assumes "distinct (concat (map f cs))" and "c \<in> set cs" and "d \<in> set cs"
    and "x \<in> set (f c)" and "x \<in> set (f d)"
  shows "c = d"
  using assms
proof (induction cs)
  case Nil
  then show ?case by simp
next
  case (Cons a cs)
  then show ?case by (cases "c = a"; cases "d = a") auto
qed

lemma distinct_concat_elems:
  assumes "distinct (concat (map f cs))" and "\<And>c. c \<in> set cs \<Longrightarrow> f c \<noteq> []"
  shows "distinct cs"
  using assms
proof (induction cs)
  case Nil
  then show ?case by simp
next
  case (Cons a cs)
  have "a \<notin> set cs"
  proof
    assume "a \<in> set cs"
    moreover obtain x where "x \<in> set (f a)" using Cons.prems(2) [of a] by (cases "f a") auto
    ultimately show False using Cons.prems(1) by auto
  qed
  then show ?case using Cons by auto
qed

lemma one_parent:
  "distinct (node_ids t) \<Longrightarrow> x \<in> set (node_ids t) \<Longrightarrow> x \<noteq> node_id t \<Longrightarrow>
     length (parents_of t x) = 1"
proof (induction t rule: all_nodes.induct)
  case (1 i s k e a cs t l p)
  let ?n = "TreeNode i s k e a cs t l p"
  have d: "distinct (concat (map node_ids cs))" and i: "i \<notin> set (concat (map node_ids cs))"
    using 1(2) by simp_all
  have dcs: "distinct cs"
    by (rule distinct_concat_elems [OF d]) (metis empty_iff list.set(1) node_id_in_node_ids)
  from 1(3,4) obtain c where c: "c \<in> set cs" "x \<in> set (node_ids c)" by auto
  have others: "parents_of c' x = []" if "c' \<in> set cs" "c' \<noteq> c" for c'
  proof -
    have "x \<notin> set (node_ids c')"
      using distinct_concat_unique [OF d that(1) c(1) _ c(2)] that(2) by blast
    then show ?thesis by (rule parents_outside)
  qed
  have cc: "concat (map (\<lambda>c. parents_of c x) cs) = parents_of c x"
    by (rule concat_one [OF c(1) dcs others])
  have dc: "distinct (node_ids c)" using d c(1) by (simp add: distinct_concat_iff)
  show ?case
  proof (cases "x = node_id c")
    case True
    have "x \<in> set (map node_id cs)" using True c(1) by auto
    moreover have "parents_of c x = []"
    proof (cases c)
      case (TreeNode i' s' k' e' a' cs' t' l' p')
      have "x \<notin> set (concat (map node_ids cs'))" using dc True TreeNode by simp
      moreover have "x \<notin> set (map node_id cs')"
        using calculation node_id_in_node_ids by fastforce
      moreover have "parents_of c' x = []" if "c' \<in> set cs'" for c'
        using calculation(1) that by (intro parents_outside) auto
      ultimately show ?thesis using TreeNode by (simp add: parents_of_simp)
    qed
    ultimately show ?thesis using cc by (simp add: parents_of_simp)
  next
    case False
    have "x \<notin> set (map node_id cs)"
    proof
      assume "x \<in> set (map node_id cs)"
      then obtain c' where c': "c' \<in> set cs" "x = node_id c'" by auto
      then have "x \<in> set (node_ids c')" using node_id_in_node_ids by simp
      then have "c' = c" using distinct_concat_unique [OF d c'(1) c(1) _ c(2)] by blast
      then show False using False c'(2) by simp
    qed
    moreover have "length (parents_of c x) = 1"
      using 1(1) [OF c(1) dc c(2) False] .
    ultimately show ?thesis using cc by (simp add: parents_of_simp)
  qed
qed

lemma diamond_built:
  "buildTreeNode 6 diamond_store ''root'' {} =
     Returned (Some diamond_tree, {''g'', ''b'', ''a'', ''root''})"
  by (simp add: eval_nat_numeral diamond_store_def diamond_tree_def mk_log_def
      invoke_handoff_def scatter_two_def getExpectedChildrenCount_def insert_commute)

text \<open>
  Claim C10: on a store holding finitely many logs, \<open>buildTreeNode\<close> needs a recursion
  depth of at most the number of logs not yet visited plus one, whatever cycles and shared
  children the \<open>sent_to\<close> relationships have: it never runs out of fuel and more fuel
  never changes the answer. A log that was visited before gives no node. For a log not
  visited before, when every log reached from it is in the store, a tree is returned:
  its root is that log, it holds exactly the logs reached from it through logs not
  visited before, each of them once, and they are what is added to the visited set;
  every node shows its log; the children of every node are the \<open>sent_to\<close> peers that had
  not been seen before, in order, so a log below the root is the child of exactly one
  node, the first that reached it, and counts among the children of that node only.
\<close>

theorem C10_buildTreeNode_terminates:
  assumes "finite (dom store)" and "card (dom store - visited) < fuel"
  shows "buildTreeNode fuel store logId visited \<noteq> OutOfFuel \<and>
    buildTreeNode (fuel + k) store logId visited = buildTreeNode fuel store logId visited \<and>
    (logId \<in> visited \<longrightarrow> buildTreeNode fuel store logId visited = Returned (None, visited)) \<and>
    (logId \<notin> visited \<and> (\<forall>x. reaches store visited logId x \<longrightarrow> x \<in> dom store) \<longrightarrow>
       (\<exists>t. buildTreeNode fuel store logId visited =
               Returned (Some t, visited \<union> set (node_ids t)) \<and>
            node_id t = logId \<and> distinct (node_ids t) \<and>
            set (node_ids t) = {x. reaches store visited logId x} \<and>
            list_all (shows_log store) (all_nodes t) \<and>
            first_come store visited t \<and>
            (\<forall>x\<in>set (node_ids t). x \<noteq> logId \<longrightarrow> length (parents_of t x) = 1)))"
proof -
  have a: "buildTreeNode fuel store logId visited \<noteq> OutOfFuel"
    using build_enough_fuel(1) [OF assms] .
  have b: "buildTreeNode (fuel + k) store logId visited =
      buildTreeNode fuel store logId visited"
    using build_more_fuel(1) [OF a] .
  have c: "buildTreeNode fuel store logId visited = Returned (None, visited)"
    if "logId \<in> visited"
    using that assms(2) by (cases fuel) simp_all
  have d: "\<exists>t. buildTreeNode fuel store logId visited =
               Returned (Some t, visited \<union> set (node_ids t)) \<and>
            node_id t = logId \<and> distinct (node_ids t) \<and>
            set (node_ids t) = {x. reaches store visited logId x} \<and>
            list_all (shows_log store) (all_nodes t) \<and>
            first_come store visited t \<and>
            (\<forall>x\<in>set (node_ids t). x \<noteq> logId \<longrightarrow> length (parents_of t x) = 1)"
    if h: "logId \<notin> visited" "\<forall>x. reaches store visited logId x \<longrightarrow> x \<in> dom store"
  proof -
    obtain t where t:
      "buildTreeNode fuel store logId visited = Returned (Some t, visited \<union> set (node_ids t))"
      "node_id t = logId" "distinct (node_ids t)"
      "set (node_ids t) = {x. reaches store visited logId x}"
      "list_all (shows_log store) (all_nodes t)" "first_come store visited t"
      using build_tree [OF assms h] by blast
    have "\<forall>x\<in>set (node_ids t). x \<noteq> logId \<longrightarrow> length (parents_of t x) = 1"
      using one_parent [OF t(3)] t(2) by simp
    then show ?thesis using t by blast
  qed
  show ?thesis using a b c d by blast
qed


lemma diamond_closed:
  "\<forall>x. reaches diamond_store {} ''root'' x \<longrightarrow> x \<in> dom diamond_store"
proof (intro allI impI)
  fix x assume "reaches diamond_store {} ''root'' x"
  then show "x \<in> dom diamond_store"
  proof (rule closed_reaches)
    show "''root'' \<in> dom diamond_store" by (simp add: diamond_store_def)
  next
    fix j log assume s: "diamond_store j = Some log"
    have d: "dom diamond_store = {''g'', ''b'', ''a'', ''root'', ''job''}"
      by (simp add: diamond_store_def)
    from s have "j \<in> dom diamond_store" by blast
    then consider "j = ''g''" | "j = ''b''" | "j = ''a''" | "j = ''root''" | "j = ''job''"
      unfolding d by blast
    then have "set (sent_to_peers log) \<subseteq> {''g'', ''b'', ''a'', ''root'', ''job''}"
    proof cases
      case 1
      then have "log = mk_log ''g'' ''done'' [] [''root'']"
        using s by (simp add: diamond_store_def)
      then show ?thesis by (simp add: sent_to_peers_def mk_log_def)
    next
      case 2
      then have "log = mk_log ''b'' ''done'' [invoke_handoff] [''g'']"
        using s by (simp add: diamond_store_def)
      then show ?thesis by (simp add: sent_to_peers_def mk_log_def)
    next
      case 3
      then have "log = mk_log ''a'' ''done'' [invoke_handoff] [''g'']"
        using s by (simp add: diamond_store_def)
      then show ?thesis by (simp add: sent_to_peers_def mk_log_def)
    next
      case 4
      then have "log = mk_log ''root'' ''done'' [scatter_two] [''a'', ''b'']"
        using s by (simp add: diamond_store_def)
      then show ?thesis by (simp add: sent_to_peers_def mk_log_def)
    next
      case 5
      then have "log = job_collection ''root''"
        using s by (simp add: diamond_store_def)
      then show ?thesis by (simp add: sent_to_peers_def job_collection_def)
    qed
    then show "set (sent_to_peers log) \<subseteq> dom diamond_store" unfolding d .
  qed
qed

text \<open>
  In the fan-in store the gather log \<open>g\<close> is reached first from \<open>a\<close> and is a child of
  \<open>a\<close> only; \<open>b\<close> has one \<open>sent_to\<close> relationship but no child in the tree, so the check
  misses its expected child and the verdict is incomplete. The cycle back to the root is
  cut.
\<close>

theorem C10_buildTreeNode_terminates_witness:
  "finite (dom diamond_store) \<and> card (dom diamond_store - {}) < 6 \<and>
   ''root'' \<notin> ({} :: string set) \<and>
   {x. reaches diamond_store {} ''root'' x} \<subseteq> dom diamond_store \<and>
   buildTreeNode 6 diamond_store ''root'' {} =
     Returned (Some diamond_tree, {''g'', ''b'', ''a'', ''root''}) \<and>
   buildTreeNode (6 + 10) diamond_store ''root'' {} = buildTreeNode 6 diamond_store ''root'' {} \<and>
   {x. reaches diamond_store {} ''root'' x} = {''root'', ''a'', ''g'', ''b''} \<and>
   node_ids diamond_tree = [''root'', ''a'', ''g'', ''b''] \<and>
   first_come diamond_store {} diamond_tree \<and>
   map node_id (parents_of diamond_tree ''g'') = [''a''] \<and>
   isComplete diamond_tree = False"
proof -
  have f: "finite (dom diamond_store)"
    by (simp add: diamond_store_def)
  have c: "card (dom diamond_store - {}) < 6"
    by (simp add: diamond_store_def)
  have i: "node_ids diamond_tree = [''root'', ''a'', ''g'', ''b'']"
    by (simp add: diamond_tree_def)
  have n: "isComplete diamond_tree = False"
    by (simp add: isComplete_def diamond_tree_def)
  have p: "map node_id (parents_of diamond_tree ''g'') = [''a'']"
    by (simp add: parents_of_def diamond_tree_def)
  have nv: "''root'' \<notin> ({} :: string set)" by simp
  from C10_buildTreeNode_terminates [OF f c, of "''root''" 10]
  have m: "buildTreeNode (6 + 10) diamond_store ''root'' {} =
      buildTreeNode 6 diamond_store ''root'' {}"
    and ex: "\<exists>t. buildTreeNode 6 diamond_store ''root'' {} =
               Returned (Some t, {} \<union> set (node_ids t)) \<and>
            node_id t = ''root'' \<and> distinct (node_ids t) \<and>
            set (node_ids t) = {x. reaches diamond_store {} ''root'' x} \<and>
            list_all (shows_log diamond_store) (all_nodes t) \<and>
            first_come diamond_store {} t \<and>
            (\<forall>x\<in>set (node_ids t). x \<noteq> ''root'' \<longrightarrow> length (parents_of t x) = 1)"
    using nv diamond_closed by blast+
  from ex obtain t where t: "buildTreeNode 6 diamond_store ''root'' {} =
               Returned (Some t, {} \<union> set (node_ids t))"
      "set (node_ids t) = {x. reaches diamond_store {} ''root'' x}"
      "first_come diamond_store {} t"
    by blast
  have e: "t = diamond_tree" using t(1) diamond_built by simp
  have r: "{x. reaches diamond_store {} ''root'' x} = {''root'', ''a'', ''g'', ''b''}"
    using t(2) i unfolding e by simp
  have fc: "first_come diamond_store {} diamond_tree" using t(3) unfolding e .
  have cl: "{x. reaches diamond_store {} ''root'' x} \<subseteq> dom diamond_store"
    using diamond_closed by blast
  show ?thesis
    by (intro conjI f c nv cl diamond_built m r i fc p n)
qed

subsection \<open>Re-running and extending\<close>

lemma build_fuel_independent:
  assumes "buildTreeNode f1 store logId visited = Returned x"
    and "buildTreeNode f2 store logId visited = Returned y"
  shows "x = y"
proof (cases "f1 \<le> f2")
  case True
  then obtain k where "f2 = f1 + k" using le_Suc_ex by blast
  then show ?thesis using build_more_fuel(1) [of f1 store logId visited k] assms by simp
next
  case False
  then obtain k where "f1 = f2 + k" using le_Suc_ex nat_le_linear by blast
  then show ?thesis using build_more_fuel(1) [of f2 store logId visited k] assms by simp
qed

lemma main_diagnose_more_fuel:
  assumes "main_diagnose fuel store job \<noteq> OutOfFuel"
  shows "main_diagnose (fuel + k) store job = main_diagnose fuel store job"
proof (cases "find (\<lambda>r. predicate r = ''first_log'')
             (case store job of None \<Rightarrow> []
              | Some collection \<Rightarrow>
                  (case relationships collection of None \<Rightarrow> [] | Some rs \<Rightarrow> rs))")
  case None
  then show ?thesis by (simp add: main_diagnose_def)
next
  case (Some rel)
  have "buildTreeNode fuel store (peer rel) {} \<noteq> OutOfFuel"
    using assms Some by (auto simp: main_diagnose_def)
  then have "buildTreeNode (fuel + k) store (peer rel) {} = buildTreeNode fuel store (peer rel) {}"
    by (rule build_more_fuel(1))
  then show ?thesis using Some by (simp add: main_diagnose_def)
qed

lemma main_diagnose_terminates:
  assumes "finite (dom store)" and "card (dom store) < fuel"
  shows "main_diagnose fuel store job \<noteq> OutOfFuel"
proof (cases "find (\<lambda>r. predicate r = ''first_log'')
             (case store job of None \<Rightarrow> []
              | Some collection \<Rightarrow>
                  (case relationships collection of None \<Rightarrow> [] | Some rs \<Rightarrow> rs))")
  case None
  then show ?thesis by (simp add: main_diagnose_def)
next
  case (Some rel)
  have "buildTreeNode fuel store (peer rel) {} \<noteq> OutOfFuel"
    by (rule build_enough_fuel(1)) (use assms in auto)
  then show ?thesis using Some
    by (auto simp: main_diagnose_def split: outcome.splits option.splits)
qed

lemma main_diagnose_fuel_independent:
  assumes "main_diagnose f1 store job \<noteq> OutOfFuel"
    and "main_diagnose f2 store job \<noteq> OutOfFuel"
  shows "main_diagnose f1 store job = main_diagnose f2 store job"
  using main_diagnose_more_fuel [OF assms(1), of f2] main_diagnose_more_fuel [OF assms(2), of f1]
  by (simp add: add.commute)

lemma extends_preserves:
  "extends isComplete t t' \<Longrightarrow>
     (list_all isTerminal (collectLeaves t) \<longrightarrow> list_all isTerminal (collectLeaves t')) \<and>
     (list_all has_expected_children (checked_nodes t) \<longrightarrow>
        list_all has_expected_children (checked_nodes t'))"
  "extends_list isComplete cs cs' \<Longrightarrow>
     ((\<forall>c\<in>set cs. list_all isTerminal (collectLeaves c)) \<longrightarrow>
        (\<forall>c\<in>set cs'. list_all isTerminal (collectLeaves c))) \<and>
     ((\<forall>c\<in>set cs. list_all has_expected_children (checked_nodes c)) \<longrightarrow>
        (\<forall>c\<in>set cs'. list_all has_expected_children (checked_nodes c))) \<and>
     length cs \<le> length cs' \<and> (cs' = [] \<longrightarrow> cs = [])"
proof (induction rule: extends_extends_list.inducts)
  case (ext_node cs cs' i s k e a t l p a' p')
  show ?case
  proof (intro conjI impI)
    assume lt: "list_all isTerminal (collectLeaves (TreeNode i s k e a cs t l p))"
    show "list_all isTerminal (collectLeaves (TreeNode i s k e a' cs' t l p'))"
    proof (cases "cs' = []")
      case True
      then have "cs = []" using ext_node.IH by simp
      then show ?thesis using lt True by simp
    next
      case False
      have "\<forall>c\<in>set cs. list_all isTerminal (collectLeaves c)"
        using lt by (cases "cs = []") (auto simp: list_all_iff)
      then have "\<forall>c\<in>set cs'. list_all isTerminal (collectLeaves c)"
        using ext_node.IH by blast
      then show ?thesis using False by (auto simp: list_all_iff)
    qed
  next
    assume ck: "list_all has_expected_children (checked_nodes (TreeNode i s k e a cs t l p))"
    show "list_all has_expected_children (checked_nodes (TreeNode i s k e a' cs' t l p'))"
    proof (cases t)
      case False
      then show ?thesis by simp
    next
      case True
      have h: "0 \<le> e \<and> e \<le> int (length cs)"
        using ck True by (simp add: has_expected_children_def)
      have "\<forall>c\<in>set cs. list_all has_expected_children (checked_nodes c)"
        using ck True by (auto simp: list_all_iff)
      then have "\<forall>c\<in>set cs'. list_all has_expected_children (checked_nodes c)"
        using ext_node.IH by blast
      moreover have "e \<le> int (length cs')" using h ext_node.IH by linarith
      ultimately show ?thesis using True h
        by (auto simp: list_all_iff has_expected_children_def)
    qed
  qed
next
  case ext_nil
  show ?case by simp
next
  case (ext_keep c c' cs cs')
  then show ?case by auto
next
  case (ext_new n cs cs')
  then show ?case by (auto simp: isComplete_def check_ok(1))
qed

lemma extends_complete: "isComplete t \<Longrightarrow> extends isComplete t t' \<Longrightarrow> isComplete t'"
  using extends_preserves(1) [of t t'] by (auto simp: isComplete_iff_checked)

lemma extends_list_snoc:
  "extends P t t' \<Longrightarrow> True"
  "extends_list P cs cs' \<Longrightarrow> P n \<Longrightarrow> extends_list P cs (cs' @ [n])"
proof (induction rule: extends_extends_list.inducts)
  case ext_nil
  then show ?case by (auto intro: extends_extends_list.intros)
next
  case (ext_keep c c' cs cs')
  then show ?case by (auto intro: extends_extends_list.intros)
next
  case (ext_new m cs cs')
  then show ?case by (auto intro: extends_extends_list.intros)
next
  case (ext_node cs cs' i s k e a t l p a' p')
  show ?case by simp
qed

lemma extends_list_all2:
  "list_all2 (extends P) cs cs' \<Longrightarrow> extends_list P cs cs'"
  by (induction rule: list_all2_induct) (auto intro: extends_extends_list.intros)

lemma find_append:
  "find P (xs @ ys) = (case find P xs of None \<Rightarrow> find P ys | Some x \<Rightarrow> Some x)"
  by (induction xs) auto

lemma buildChildren_append:
  "buildChildren fuel store (xs @ ys) V =
     (case buildChildren fuel store xs V of
        OutOfFuel \<Rightarrow> OutOfFuel
      | Raised \<Rightarrow> Raised
      | Returned (cs, v) \<Rightarrow>
          (case buildChildren fuel store ys v of
             OutOfFuel \<Rightarrow> OutOfFuel
           | Raised \<Rightarrow> Raised
           | Returned (ds, v') \<Rightarrow> Returned (cs @ ds, v')))"
proof (induction xs arbitrary: V)
  case Nil
  show ?case by (simp split: outcome.splits prod.splits)
next
  case (Cons x xs)
  show ?case
    by (simp add: Cons split: outcome.splits prod.splits option.splits)
qed

text \<open>Building inside the new logs gives the same tree in every store that holds them.\<close>

lemma build_local:
  "buildTreeNode fuel new logId W = Returned (r, w) \<Longrightarrow>
     (\<And>j. j \<in> dom new \<Longrightarrow> store j = new j) \<Longrightarrow> U \<inter> dom new = {} \<Longrightarrow>
     buildTreeNode fuel store logId (W \<union> U) = Returned (r, w \<union> U)"
  "buildChildren fuel new rels W = Returned (cs, w) \<Longrightarrow>
     (\<And>j. j \<in> dom new \<Longrightarrow> store j = new j) \<Longrightarrow> U \<inter> dom new = {} \<Longrightarrow>
     buildChildren fuel store rels (W \<union> U) = Returned (cs, w \<union> U)"
proof (induction fuel new logId W and fuel new rels W arbitrary: r w and cs w
    rule: buildTreeNode_buildChildren.induct)
  case (1 new logId W)
  then show ?case by simp
next
  case (2 fuel new logId W)
  show ?case
  proof (cases "logId \<in> W")
    case True
    then show ?thesis using 2(2) by auto
  next
    case False
    from 2(2) False obtain log where log: "new logId = Some log"
      by (auto split: option.splits)
    then have d: "logId \<in> dom new" by auto
    then have nu: "logId \<notin> W \<union> U" using False 2(4) by auto
    have sl: "store logId = Some log" using 2(3) [OF d] log by simp
    let ?sentTo = "filter (\<lambda>r. predicate r = ''sent_to'')
                            (case relationships log of None \<Rightarrow> [] | Some rs \<Rightarrow> rs)"
    from 2(2) False log obtain cs where
      bc: "buildChildren fuel new ?sentTo (insert logId W) = Returned (cs, w)"
      by (auto simp: Let_def split: outcome.splits prod.splits)
    have "buildChildren fuel store ?sentTo (insert logId W \<union> U) = Returned (cs, w \<union> U)"
      using 2(1) [OF False log refl refl refl refl refl refl bc 2(3) 2(4)] .
    then have "buildChildren fuel store ?sentTo (insert logId (W \<union> U)) = Returned (cs, w \<union> U)"
      by simp
    then show ?thesis using 2(2) False log bc nu sl
      by (simp add: Let_def)
  qed
next
  case (3 fuel new W)
  then show ?case by simp
next
  case (4 fuel new rel rels W)
  from 4(3) obtain child v1 cs1 where
    b1: "buildTreeNode fuel new (peer rel) W = Returned (child, v1)"
    and b2: "buildChildren fuel new rels v1 = Returned (cs1, w)"
    and cs: "cs = (case child of None \<Rightarrow> cs1 | Some c \<Rightarrow> c # cs1)"
    by (auto split: outcome.splits prod.splits)
  have "buildTreeNode fuel store (peer rel) (W \<union> U) = Returned (child, v1 \<union> U)"
    using 4(1) [OF b1 4(4) 4(5)] .
  moreover have "buildChildren fuel store rels (v1 \<union> U) = Returned (cs1, w \<union> U)"
    using 4(2) [OF b1 refl b2 4(4) 4(5)] .
  ultimately show ?case using cs by simp
qed

text \<open>
  Building in the store with the added logs follows the building in the old store: the
  tree is the old one, with the tree of the new logs hung below the parent when the
  parent is built.
\<close>

lemma build_added:
  "store parent = Some plog \<Longrightarrow> dom new \<inter> dom store = {} \<Longrightarrow>
   buildTreeNode K new c {} = Returned (Some tc, N) \<Longrightarrow> isComplete tc \<Longrightarrow>
   buildTreeNode fuel store logId V = Returned (r, v) \<Longrightarrow> V \<inter> dom new = {} \<Longrightarrow>
       V' = V \<or> (V' = V \<union> N \<and> parent \<in> V) \<Longrightarrow>
       \<exists>r'. buildTreeNode (fuel + K) (add_logs store parent c new) logId V' =
               Returned (r', v \<union> (V' - V) \<union> (if parent \<in> v \<and> parent \<notin> V then N else {})) \<and>
            rel_option (extends isComplete) r r'"
  "store parent = Some plog \<Longrightarrow> dom new \<inter> dom store = {} \<Longrightarrow>
   buildTreeNode K new c {} = Returned (Some tc, N) \<Longrightarrow> isComplete tc \<Longrightarrow>
   buildChildren fuel store rels V = Returned (cs, v) \<Longrightarrow> V \<inter> dom new = {} \<Longrightarrow>
       V' = V \<or> (V' = V \<union> N \<and> parent \<in> V) \<Longrightarrow>
       \<exists>cs'. buildChildren (fuel + K) (add_logs store parent c new) rels V' =
               Returned (cs', v \<union> (V' - V) \<union> (if parent \<in> v \<and> parent \<notin> V then N else {})) \<and>
            list_all2 (extends isComplete) cs cs'"
proof (induction fuel store logId V and fuel store rels V arbitrary: r v V' and cs v V'
    rule: buildTreeNode_buildChildren.induct)
  case (1 store logId V)
  then show ?case by simp
next
  case (2 fuel store logId V)
  note pl = 2(2) and dj = 2(3) and sub = 2(4) and comp = 2(5) and bld = 2(6)
    and vd = 2(7) and hyp0 = 2(8)
  let ?store' = "add_logs store parent c new"
  have N: "N = set (node_ids tc)" "N \<subseteq> dom new"
    using build_visited(1) [OF sub] by auto
  show ?case
  proof (cases "logId \<in> V")
    case True
    then have rv: "r = None" "v = V" using bld by auto
    have "logId \<in> V'" using True hyp0 by auto
    then have "buildTreeNode (Suc fuel + K) ?store' logId V' = Returned (None, V')" by simp
    moreover have "V' = v \<union> (V' - V) \<union> (if parent \<in> v \<and> parent \<notin> V then N else {})"
      using rv hyp0 by auto
    ultimately show ?thesis using rv by simp
  next
    case False
    from bld False obtain log where log: "store logId = Some log"
      by (auto split: option.splits)
    then have ds: "logId \<in> dom store" by auto
    then have nn0: "logId \<notin> dom new" using dj by blast
    then have nn: "logId \<notin> dom new" "logId \<notin> N" using N(2) by blast+
    then have nv': "logId \<notin> V'" using False hyp0 by auto
    let ?sentTo = "filter (\<lambda>r. predicate r = ''sent_to'')
                            (case relationships log of None \<Rightarrow> [] | Some rs \<Rightarrow> rs)"
    from bld False log obtain cs where
      bc: "buildChildren fuel store ?sentTo (insert logId V) = Returned (cs, v)"
      and r: "r = Some (TreeNode logId (status log) (klados_id log) (getExpectedChildrenCount log)
          (length ?sentTo) cs (status log = ''done'' \<or> status log = ''error'')
          (status log = ''error'' \<or> ((status log = ''done'' \<or> status log = ''error'') \<and> getExpectedChildrenCount log = 0))
          (if getExpectedChildrenCount log < 0 then Some UNKNOWN_EXPECTED
                         else if (status log = ''done'' \<or> status log = ''error'') \<and> int (length ?sentTo) < getExpectedChildrenCount log
                           then Some (MISSING_CHILDREN (getExpectedChildrenCount log) (length ?sentTo))
                         else if \<not> (status log = ''done'' \<or> status log = ''error'') then Some (NOT_TERMINAL (status log))
                         else None))"
      by (auto simp: Let_def split: outcome.splits prod.splits)
    have vin: "insert logId V \<inter> dom new = {}" using vd nn by auto
    from build_visited(2) [OF bc]
    have bv1: "v = insert logId V \<union> set (concat (map node_ids cs))"
      and bv2: "set (concat (map node_ids cs)) \<subseteq> dom store"
      by blast+
    have vsub: "insert logId V \<subseteq> v" "v \<inter> dom new = {}"
      using bv1 bv2 vin dj by blast+
    show ?thesis
    proof (cases "logId = parent")
      case False
      have sl: "?store' logId = Some log"
        using False log nn pl by (auto simp: add_logs_def map_add_def domIff split: option.splits)
      have hyp: "insert logId V' = insert logId V \<or>
          (insert logId V' = insert logId V \<union> N \<and> parent \<in> insert logId V)"
        using hyp0 by auto
      from 2(1) [OF \<open>logId \<notin> V\<close> log refl refl refl refl refl refl pl dj sub comp bc vin hyp]
      obtain cs' where
        bc': "buildChildren (fuel + K) ?store' ?sentTo (insert logId V') =
              Returned (cs', v \<union> (insert logId V' - insert logId V) \<union>
                 (if parent \<in> v \<and> parent \<notin> insert logId V then N else {}))"
        and ex: "list_all2 (extends isComplete) cs cs'"
        by blast
      have veq: "v \<union> (insert logId V' - insert logId V) \<union>
                 (if parent \<in> v \<and> parent \<notin> insert logId V then N else {}) =
             v \<union> (V' - V) \<union> (if parent \<in> v \<and> parent \<notin> V then N else {})"
        using False nv' \<open>logId \<notin> V\<close> hyp0 nn by auto
      have "extends isComplete (the r)
          (TreeNode logId (status log) (klados_id log) (getExpectedChildrenCount log)
          (length ?sentTo) cs' (status log = ''done'' \<or> status log = ''error'')
          (status log = ''error'' \<or> ((status log = ''done'' \<or> status log = ''error'') \<and> getExpectedChildrenCount log = 0))
          (if getExpectedChildrenCount log < 0 then Some UNKNOWN_EXPECTED
                         else if (status log = ''done'' \<or> status log = ''error'') \<and> int (length ?sentTo) < getExpectedChildrenCount log
                           then Some (MISSING_CHILDREN (getExpectedChildrenCount log) (length ?sentTo))
                         else if \<not> (status log = ''done'' \<or> status log = ''error'') then Some (NOT_TERMINAL (status log))
                         else None))"
        unfolding r option.sel by (rule ext_node) (rule extends_list_all2 [OF ex])
      then show ?thesis
        using nv' sl bc' veq r by (simp add: Let_def)
    next
      case True
      have VV: "V' = V" using hyp0 True \<open>logId \<notin> V\<close> by auto
      have lp: "log = plog" using log pl True by simp
      let ?plog' = "plog\<lparr> relationships :=
                Some ((case relationships plog of None \<Rightarrow> [] | Some rs \<Rightarrow> rs) @
                      [\<lparr> predicate = ''sent_to'', peer = c \<rparr>]) \<rparr>"
      have sl: "?store' logId = Some ?plog'"
        using True pl by (simp add: add_logs_def)
      have st': "filter (\<lambda>r. predicate r = ''sent_to'')
                   (case relationships ?plog' of None \<Rightarrow> [] | Some rs \<Rightarrow> rs) =
                 ?sentTo @ [\<lparr> predicate = ''sent_to'', peer = c \<rparr>]"
        using lp by simp
      have hyp: "insert logId V = insert logId V \<or>
          (insert logId V = insert logId V \<union> N \<and> parent \<in> insert logId V)"
        by simp
      from 2(1) [OF \<open>logId \<notin> V\<close> log refl refl refl refl refl refl pl dj sub comp bc vin hyp]
      obtain cs' where
        bc': "buildChildren (fuel + K) ?store' ?sentTo (insert logId V) =
              Returned (cs', v \<union> (insert logId V - insert logId V) \<union>
                 (if parent \<in> v \<and> parent \<notin> insert logId V then N else {}))"
        and ex: "list_all2 (extends isComplete) cs cs'"
        by blast
      have bc1: "buildChildren (fuel + K) ?store' ?sentTo (insert logId V) = Returned (cs', v)"
        using bc' True by simp
      have agree: "?store' j = new j" if "j \<in> dom new" for j
        using that pl dj by (auto simp: add_logs_def map_add_def split: option.splits)
      have "buildTreeNode K ?store' c ({} \<union> v) = Returned (Some tc, N \<union> v)"
        by (rule build_local(1) [OF sub agree]) (use vsub in auto)
      then have "buildTreeNode (K + fuel) ?store' c v = Returned (Some tc, N \<union> v)"
        using build_more_fuel(1) [of K ?store' c v fuel] by simp
      then have bt: "buildTreeNode (fuel + K) ?store' c v = Returned (Some tc, v \<union> N)"
        by (simp add: add.commute Un_commute)
      have bc2: "buildChildren (fuel + K) ?store'
            (?sentTo @ [\<lparr> predicate = ''sent_to'', peer = c \<rparr>]) (insert logId V) =
          Returned (cs' @ [tc], v \<union> N)"
        by (simp add: buildChildren_append bc1 bt)
      have veq: "v \<union> N = v \<union> (V' - V) \<union> (if parent \<in> v \<and> parent \<notin> V then N else {})"
        using VV True vsub \<open>logId \<notin> V\<close> by auto
      have el: "extends_list isComplete cs (cs' @ [tc])"
        by (rule extends_list_snoc(2) [OF extends_list_all2 [OF ex] comp])
      have sp: "status ?plog' = status log" "klados_id ?plog' = klados_id log"
        "getExpectedChildrenCount ?plog' = getExpectedChildrenCount log"
        using lp by (simp_all add: getExpectedChildrenCount_def cong: option.case_cong)
      have "extends isComplete (the r)
          (TreeNode logId (status log) (klados_id log) (getExpectedChildrenCount log)
          (length (?sentTo @ [\<lparr> predicate = ''sent_to'', peer = c \<rparr>])) (cs' @ [tc])
          (status log = ''done'' \<or> status log = ''error'')
          (status log = ''error'' \<or> ((status log = ''done'' \<or> status log = ''error'') \<and> getExpectedChildrenCount log = 0))
          (if getExpectedChildrenCount log < 0 then Some UNKNOWN_EXPECTED
                         else if (status log = ''done'' \<or> status log = ''error'') \<and>
                            int (length (?sentTo @ [\<lparr> predicate = ''sent_to'', peer = c \<rparr>])) < getExpectedChildrenCount log
                           then Some (MISSING_CHILDREN (getExpectedChildrenCount log)
                              (length (?sentTo @ [\<lparr> predicate = ''sent_to'', peer = c \<rparr>])))
                         else if \<not> (status log = ''done'' \<or> status log = ''error'') then Some (NOT_TERMINAL (status log))
                         else None))"
        unfolding r option.sel by (rule ext_node) (rule el)
      moreover have "buildTreeNode (Suc fuel + K) ?store' logId V' =
          Returned (Some (TreeNode logId (status log) (klados_id log) (getExpectedChildrenCount log)
          (length (?sentTo @ [\<lparr> predicate = ''sent_to'', peer = c \<rparr>])) (cs' @ [tc])
          (status log = ''done'' \<or> status log = ''error'')
          (status log = ''error'' \<or> ((status log = ''done'' \<or> status log = ''error'') \<and> getExpectedChildrenCount log = 0))
          (if getExpectedChildrenCount log < 0 then Some UNKNOWN_EXPECTED
                         else if (status log = ''done'' \<or> status log = ''error'') \<and>
                            int (length (?sentTo @ [\<lparr> predicate = ''sent_to'', peer = c \<rparr>])) < getExpectedChildrenCount log
                           then Some (MISSING_CHILDREN (getExpectedChildrenCount log)
                              (length (?sentTo @ [\<lparr> predicate = ''sent_to'', peer = c \<rparr>])))
                         else if \<not> (status log = ''done'' \<or> status log = ''error'') then Some (NOT_TERMINAL (status log))
                         else None)), v \<union> N)"
        unfolding VV using \<open>logId \<notin> V\<close> sl
        by (simp only: add_Suc buildTreeNode.simps if_False option.case Let_def st' bc2 sp
            outcome.case prod.case)
      ultimately show ?thesis using veq r by auto
    qed
  qed
next
  case (3 fuel store V)
  then show ?case by auto
next
  case (4 fuel store rel rels V)
  note pl = 4(3) and dj = 4(4) and sub = 4(5) and comp = 4(6) and bld = 4(7)
    and vd = 4(8) and hyp0 = 4(9)
  let ?store' = "add_logs store parent c new"
  have N: "N = set (node_ids tc)" "N \<subseteq> dom new"
    using build_visited(1) [OF sub] by auto
  from bld obtain child v1 cs1 where
    b1: "buildTreeNode fuel store (peer rel) V = Returned (child, v1)"
    and b2: "buildChildren fuel store rels v1 = Returned (cs1, v)"
    and cs: "cs = (case child of None \<Rightarrow> cs1 | Some c \<Rightarrow> c # cs1)"
    by (auto split: outcome.splits prod.splits)
  have v1: "V \<subseteq> v1" "v1 \<inter> dom new = {}"
  proof -
    show "V \<subseteq> v1" using build_reaches(1) [OF b1] by blast
    show "v1 \<inter> dom new = {}"
    proof (cases child)
      case None
      then show ?thesis using build_visited(1) [OF b1] vd by simp
    next
      case (Some ch)
      from build_visited(1) [OF b1 [unfolded Some]]
      have "v1 = V \<union> set (node_ids ch)" "set (node_ids ch) \<subseteq> dom store"
        by simp_all
      then show ?thesis using vd dj by blast
    qed
  qed
  have v2: "v1 \<subseteq> v" using build_reaches(2) [OF b2] by blast
  from 4(1) [OF pl dj sub comp b1 vd hyp0] obtain child' where
    b1': "buildTreeNode (fuel + K) ?store' (peer rel) V' =
        Returned (child', v1 \<union> (V' - V) \<union> (if parent \<in> v1 \<and> parent \<notin> V then N else {}))"
    and e1: "rel_option (extends isComplete) child child'"
    by blast
  let ?v1' = "v1 \<union> (V' - V) \<union> (if parent \<in> v1 \<and> parent \<notin> V then N else {})"
  have hyp: "?v1' = v1 \<or> (?v1' = v1 \<union> N \<and> parent \<in> v1)"
    using hyp0 v1 vd N by auto
  from 4(2) [OF b1 refl pl dj sub comp b2 v1(2) hyp] obtain cs1' where
    b2': "buildChildren (fuel + K) ?store' rels ?v1' =
        Returned (cs1', v \<union> (?v1' - v1) \<union> (if parent \<in> v \<and> parent \<notin> v1 then N else {}))"
    and e2: "list_all2 (extends isComplete) cs1 cs1'"
    by blast
  have veq: "v \<union> (?v1' - v1) \<union> (if parent \<in> v \<and> parent \<notin> v1 then N else {}) =
      v \<union> (V' - V) \<union> (if parent \<in> v \<and> parent \<notin> V then N else {})"
    using v1 v2 vd hyp0 N by auto
  have "list_all2 (extends isComplete) cs
      (case child' of None \<Rightarrow> cs1' | Some c \<Rightarrow> c # cs1')"
    using e1 e2 cs by (cases child; cases child') auto
  then show ?case using b1' b2' veq by simp
qed

lemma main_diagnose_added:
  assumes ver: "main_diagnose fuel store job = Returned (Verdict True)"
    and dj: "dom new \<inter> dom store = {}"
    and sub: "buildTreeNode K new c {} = Returned (Some tc, N)"
    and comp: "isComplete tc"
  shows "main_diagnose (fuel + K) (add_logs store parent c new) job = Returned (Verdict True)"
proof (cases "store parent")
  case None
  then have "add_logs store parent c new = store" by (simp add: add_logs_def)
  moreover have "main_diagnose (fuel + K) store job = main_diagnose fuel store job"
    by (rule main_diagnose_more_fuel) (simp add: ver)
  ultimately show ?thesis using ver by simp
next
  case (Some plog)
  let ?store' = "add_logs store parent c new"
  let ?rels = "\<lambda>s. (case s job of None \<Rightarrow> []
              | Some collection \<Rightarrow>
                  (case relationships collection of None \<Rightarrow> [] | Some rs \<Rightarrow> rs))"
  from ver obtain rel where rel: "find (\<lambda>r. predicate r = ''first_log'') (?rels store) = Some rel"
    by (auto simp: main_diagnose_def split: option.splits)
  then obtain collection where col: "store job = Some collection"
    by (cases "store job") auto
  then have jn: "job \<notin> dom new" using dj by auto
  have rel': "find (\<lambda>r. predicate r = ''first_log'') (?rels ?store') = Some rel"
  proof (cases "job = parent")
    case True
    then have "?rels ?store' = ?rels store @ [\<lparr> predicate = ''sent_to'', peer = c \<rparr>]"
      using Some col by (simp add: add_logs_def)
    then show ?thesis using rel by (simp add: find_append)
  next
    case False
    then have "?store' job = store job"
      using Some jn by (auto simp: add_logs_def map_add_def domIff split: option.splits)
    then show ?thesis using rel by simp
  qed
  from ver rel obtain t v where
    b: "buildTreeNode fuel store (peer rel) {} = Returned (Some t, v)" and ct: "isComplete t"
    by (auto simp: main_diagnose_def split: outcome.splits option.splits)
  have hyp: "({} :: string set) = {} \<or> ({} = {} \<union> N \<and> parent \<in> {})" by simp
  from build_added(1) [OF Some dj sub comp b _ hyp] obtain r' v' where
    b': "buildTreeNode (fuel + K) ?store' (peer rel) {} = Returned (r', v')"
    and ex: "rel_option (extends isComplete) (Some t) r'"
    by auto
  from ex obtain t' where t': "r' = Some t'" "extends isComplete t t'"
    by (cases r') auto
  have "isComplete t'" using extends_complete [OF ct t'(2)] .
  then show ?thesis using rel' b' t' by (simp add: main_diagnose_def)
qed

lemma finished_verdict: "main_diagnose 3 finished_store ''job'' = Returned (Verdict True)"
proof -
  have c: "isComplete finished_tree"
    by (simp add: isComplete_def finished_tree_def)
  have j: "finished_store ''job'' = Some (job_collection ''root'')"
    by (simp add: finished_store_def)
  show ?thesis
    using main_diagnose_built [where store = finished_store and jobCollection = "''job''",
        OF j first_log_of_job_collection finished_built] c
    by simp
qed

lemma added_built:
  "buildTreeNode 4 (add_log finished_store ''root'' running_log) ''root'' {} =
     Returned (Some (TreeNode ''root'' ''done'' ''stage'' 1 2
       [TreeNode ''c'' ''done'' ''stage'' 0 0 [] True True None,
        TreeNode ''d'' ''running'' ''stage'' 0 0 [] False False (Some (NOT_TERMINAL ''running''))]
       True False None), {''d'', ''c'', ''root''})"
  "buildTreeNode 4 (add_log finished_store ''root'' childless_log) ''root'' {} =
     Returned (Some (TreeNode ''root'' ''done'' ''stage'' 1 2
       [TreeNode ''c'' ''done'' ''stage'' 0 0 [] True True None,
        TreeNode ''d'' ''done'' ''stage'' 1 0 [] True False (Some (MISSING_CHILDREN 1 0))]
       True False None), {''d'', ''c'', ''root''})"
  "buildTreeNode 4 (add_log finished_store ''root'' thief_log) ''root'' {} =
     Returned (Some (TreeNode ''root'' ''done'' ''stage'' 1 2
       [TreeNode ''c'' ''done'' ''stage'' 0 0 [] True True None,
        TreeNode ''d'' ''done'' ''stage'' 1 1 [] True False None]
       True False None), {''d'', ''c'', ''root''})"
  by (simp_all add: eval_nat_numeral add_log_def add_logs_def finished_store_def mk_log_def
      running_log_def childless_log_def thief_log_def
      invoke_handoff_def getExpectedChildrenCount_def insert_commute)

lemma added_job:
  "add_log finished_store ''root'' log ''job'' = Some (job_collection ''root'') \<or> log_id log = ''job''"
  by (simp add: add_log_def add_logs_def finished_store_def)

text \<open>
  Claim C6, as stated, fails in its second half: adding a log can turn the verdict from
  true to false. The finished run is complete; after a running child is added below the
  root the new leaf is not terminal, and the verdict is false. The same happens with a
  finished log that recorded a handoff but has no child yet, and with a finished log
  whose only \<open>sent_to\<close> goes to a log that is already in the tree.
\<close>

theorem C6_added_running_log_counterexample:
  "main_diagnose 3 finished_store ''job'' = Returned (Verdict True) \<and>
   main_diagnose 4 (add_log finished_store ''root'' running_log) ''job'' =
     Returned (Verdict False) \<and>
   main_diagnose 4 (add_log finished_store ''root'' childless_log) ''job'' =
     Returned (Verdict False) \<and>
   main_diagnose 4 (add_log finished_store ''root'' thief_log) ''job'' =
     Returned (Verdict False)"
proof -
  have j: "add_log finished_store ''root'' log ''job'' = Some (job_collection ''root'')"
    if "log_id log = ''d''" for log
    using added_job [of log] that by simp
  have m1: "main_diagnose 4 (add_log finished_store ''root'' running_log) ''job'' =
      Returned (Verdict False)"
    using main_diagnose_built [where jobCollection = "''job''",
        OF j first_log_of_job_collection added_built(1)]
    by (simp add: isComplete_def running_log_def mk_log_def)
  have m2: "main_diagnose 4 (add_log finished_store ''root'' childless_log) ''job'' =
      Returned (Verdict False)"
    using main_diagnose_built [where jobCollection = "''job''",
        OF j first_log_of_job_collection added_built(2)]
    by (simp add: isComplete_def childless_log_def mk_log_def)
  have m3: "main_diagnose 4 (add_log finished_store ''root'' thief_log) ''job'' =
      Returned (Verdict False)"
    using main_diagnose_built [where jobCollection = "''job''",
        OF j first_log_of_job_collection added_built(3)]
    by (simp add: isComplete_def thief_log_def mk_log_def)
  show ?thesis using finished_verdict m1 m2 m3 by simp
qed

text \<open>
  Claim C6, amended. On a finite store the verdict is a function of the log graph: every
  run with fuel above the number of logs ends, and all of them give the same diagnosis.
  Adding logs does not turn the verdict from true to false when the new logs send only
  to one another and the oracle, started at the new child, judges them complete (every
  leaf terminal, every terminal log with its expected children): a true verdict stays
  true when such logs are written and the new child is made one more \<open>sent_to\<close> peer of
  any log.
\<close>

theorem C6_rerun_and_extend:
  assumes "finite (dom store)"
  shows "(\<exists>r. r \<noteq> OutOfFuel \<and>
            (\<forall>fuel. card (dom store) < fuel \<longrightarrow> main_diagnose fuel store job = r)) \<and>
     (main_diagnose fuel store job = Returned (Verdict True) \<and>
      finite (dom new) \<and> dom new \<inter> dom store = {} \<and>
      buildTreeNode K new child {} = Returned (Some t, v) \<and> isComplete t \<longrightarrow>
        (\<forall>fuel'. card (dom store) + card (dom new) < fuel' \<longrightarrow>
           main_diagnose fuel' (add_logs store parent child new) job = Returned (Verdict True)))"
proof
  let ?n = "Suc (card (dom store))"
  have t: "main_diagnose ?n store job \<noteq> OutOfFuel"
    by (rule main_diagnose_terminates [OF assms]) simp
  have "main_diagnose f store job = main_diagnose ?n store job" if "card (dom store) < f" for f
    by (rule main_diagnose_fuel_independent [OF main_diagnose_terminates [OF assms that] t])
  then show "\<exists>r. r \<noteq> OutOfFuel \<and>
            (\<forall>fuel. card (dom store) < fuel \<longrightarrow> main_diagnose fuel store job = r)"
    using t by blast
next
  show "main_diagnose fuel store job = Returned (Verdict True) \<and>
      finite (dom new) \<and> dom new \<inter> dom store = {} \<and>
      buildTreeNode K new child {} = Returned (Some t, v) \<and> isComplete t \<longrightarrow>
        (\<forall>fuel'. card (dom store) + card (dom new) < fuel' \<longrightarrow>
           main_diagnose fuel' (add_logs store parent child new) job = Returned (Verdict True))"
  proof (intro impI allI, elim conjE)
    fix fuel'
    assume ver: "main_diagnose fuel store job = Returned (Verdict True)"
      and fin: "finite (dom new)" and dj: "dom new \<inter> dom store = {}"
      and sub: "buildTreeNode K new child {} = Returned (Some t, v)" and comp: "isComplete t"
      and f': "card (dom store) + card (dom new) < fuel'"
    let ?store' = "add_logs store parent child new"
    have a: "main_diagnose (fuel + K) ?store' job = Returned (Verdict True)"
      by (rule main_diagnose_added [OF ver dj sub comp])
    have "dom ?store' \<subseteq> dom store \<union> dom new"
      by (auto simp: add_logs_def split: option.splits if_splits)
    then have "card (dom ?store') \<le> card (dom store \<union> dom new)" and fs: "finite (dom ?store')"
      using assms fin by (auto intro: card_mono finite_subset)
    then have "card (dom ?store') < fuel'"
      using f' card_Un_le [of "dom store" "dom new"] by linarith
    then have "main_diagnose fuel' ?store' job \<noteq> OutOfFuel"
      by (rule main_diagnose_terminates [OF fs])
    then have "main_diagnose fuel' ?store' job = main_diagnose (fuel + K) ?store' job"
      by (rule main_diagnose_fuel_independent) (simp add: a)
    then show "main_diagnose fuel' ?store' job = Returned (Verdict True)" using a by simp
  qed
qed

lemma two_new_built:
  "buildTreeNode 3 two_new_logs ''d'' {} = Returned (Some two_new_tree, {''e'', ''d''})"
  by (simp add: eval_nat_numeral two_new_logs_def two_new_tree_def mk_log_def
      invoke_handoff_def getExpectedChildrenCount_def insert_commute)

theorem C6_rerun_and_extend_witness:
  "finite (dom finished_store) \<and> card (dom finished_store) < 4 \<and>
   main_diagnose 4 finished_store ''job'' = Returned (Verdict True) \<and>
   main_diagnose 3 finished_store ''job'' = Returned (Verdict True) \<and>
   finite (dom two_new_logs) \<and> dom two_new_logs \<inter> dom finished_store = {} \<and>
   buildTreeNode 3 two_new_logs ''d'' {} = Returned (Some two_new_tree, {''e'', ''d''}) \<and>
   isComplete two_new_tree \<and>
   card (dom finished_store) + card (dom two_new_logs) < 6 \<and>
   main_diagnose 6 (add_logs finished_store ''c'' ''d'' two_new_logs) ''job'' =
     Returned (Verdict True)"
proof -
  have f: "finite (dom finished_store)" by (simp add: finished_store_def)
  have c: "card (dom finished_store) < 4" by (simp add: finished_store_def)
  have fn: "finite (dom two_new_logs)" by (simp add: two_new_logs_def)
  have dj: "dom two_new_logs \<inter> dom finished_store = {}"
    by (simp add: two_new_logs_def finished_store_def)
  have ct: "isComplete two_new_tree" by (simp add: isComplete_def two_new_tree_def)
  have cc: "card (dom finished_store) + card (dom two_new_logs) < 6"
    by (simp add: two_new_logs_def finished_store_def)
  note inst = C6_rerun_and_extend [OF f, of "''job''" 3 two_new_logs 3 "''d''" two_new_tree
      "{''e'', ''d''}" "''c''"]
  from inst obtain r where r: "\<forall>fuel. card (dom finished_store) < fuel \<longrightarrow>
      main_diagnose fuel finished_store ''job'' = r"
    by blast
  have m4: "main_diagnose 4 finished_store ''job'' = Returned (Verdict True)"
  proof -
    have "main_diagnose (3 + 1) finished_store ''job'' = main_diagnose 3 finished_store ''job''"
      by (rule main_diagnose_more_fuel) (simp add: finished_verdict)
    then show ?thesis using finished_verdict by simp
  qed
  have m6: "main_diagnose 6 (add_logs finished_store ''c'' ''d'' two_new_logs) ''job'' =
     Returned (Verdict True)"
    using inst finished_verdict fn dj two_new_built ct cc by blast
  show ?thesis
    by (intro conjI f c m4 finished_verdict fn dj two_new_built ct cc m6)
qed

section \<open>Environment substitution\<close>










section \<open>JSON retry of the describe worker\<close>

declare retryLoop.simps [simp del]








lemma toy_tryParse_bad: "tryParse toy_parse \<lparr> content = ''bad'' \<rparr> = Inl ''Unexpected token''"
  by (simp add: tryParse_def toy_parse_def)

lemma toy_tryParse_ok:
  "tryParse toy_parse \<lparr> content = ''ok'' \<rparr> =
     Inr \<lparr> description = ''a cluster'', title = None, label = None \<rparr>"
  by (simp add: tryParse_def toy_parse_def property_def)


lemma toy_run_second_ok:
  "callGeminiWithJsonRetry (logged (toy_gemini 1)) toy_parse False ''key'' ''system'' ''user''
     (0, []) =
     (Inr (\<lparr> content = ''ok'' \<rparr>,
           \<lparr> description = ''a cluster'', title = None, label = None \<rparr>),
      (2, [toy_call ''user'' ''bad'',
           toy_call (''user'' @ retry_section False ''Unexpected token'' \<lparr> content = ''bad'' \<rparr>)
             ''ok'']))"
  by (simp add: callGeminiWithJsonRetry_def retryLoop.simps JSON_PARSE_MAX_RETRIES_def
      toy_gemini_def toy_tryParse_bad toy_tryParse_ok logged_def toy_call_def)


section \<open>Cluster simulation: properties\<close>

subsection \<open>Numbers and concrete runs\<close>

lemma next_seed_42: "next_seed 42 = 1250496027" by code_simp
lemma jitter_42: "double_floor (double_times (random_of_seed 1250496027) 60000) = 34938" by code_simp
lemma arrival_0: "double_floor (double_times (number_div 0 1) 5000) = 0" by code_simp
lemma bit_length_le: "n < 2 ^ k \<Longrightarrow> bit_length n \<le> k"
proof (induction k arbitrary: n)
  case 0
  then show ?case by (simp add: bit_length.simps)
next
  case (Suc k)
  show ?case
  proof (cases "n \<le> 0")
    case True
    then show ?thesis by (simp add: bit_length.simps)
  next
    case False
    have "n div 2 < 2 ^ k" using Suc.prems by simp
    then have "bit_length (n div 2) \<le> k" by (rule Suc.IH)
    then show ?thesis using False by (subst bit_length.simps) simp
  qed
qed

lemma round_to_53_small: "\<bar>m\<bar> < 2 ^ 53 \<Longrightarrow> round_to_53 m e = (m, e)"
  using bit_length_le [of "\<bar>m\<bar>" 53] by (simp add: round_to_53_def)

lemma number_add_small: "\<bar>a + b\<bar> < 2 ^ 53 \<Longrightarrow> number_add a b = a + b"
  by (simp add: number_add_def round_to_53_small double_floor_def)

lemma number_sub_small: "\<bar>a - b\<bar> < 2 ^ 53 \<Longrightarrow> number_sub a b = a - b"
  by (simp add: number_sub_def round_to_53_small double_floor_def)

lemma lone_start:
  "start lone_data default_config =
     Some \<lparr> random_seed = 42, entityStates = [''a'' \<mapsto> initial_state], clusters = [],
            eventQueue = [\<lparr> time = 0, ev_type = entity_arrives, entityId = ''a'', data = None \<rparr>],
            currentTime = 0, nextClusterId = 1 \<rparr>"
  by (simp add: start_def lone_data_def default_config_def new_simulation_def shuffle_def
      scheduleEvent_def sort_by_def arrival_0)

text \<open>
  Claim C3 against the code: a single entity, alone at its layer, with the default
  configuration. Its follower wait ends with a solo cluster, the fallback reaches the
  entity itself in the lexicographic loop and returns ("staying leader"), so the
  dissolve block below the loop is never run: the cluster stays, with the entity as its
  member and leader.
\<close>

theorem C3_lone_entity_keeps_cluster:
  "map_outcome (\<lambda>s. (cluster_members s, membership [''a''] s, leader_flags [''a''] s,
                       eventQueue s))
     (run 10 compare_strings lone_data default_config) =
   Returned ([(1, [''a''])], [(''a'', Some (Some 1))], [Some (True, False)], [])"
  unfolding run_def lone_start
  by (simp add: step_def processEvent_def lone_data_def default_config_def
      scheduleEvent_def sort_by_def update_state_def next_seed_42 jitter_42 arrival_0
      number_add_small number_sub_small getVisiblePeers_def similar_to_def slice0_def
      create_and_wait_def createCluster_def getJitteryWait_def initial_state_def
      runFallback_def cluster_members_def membership_def leader_flags_def)

lemma shuffle_j_42: "double_floor (double_times (random_of_seed 1250496027) 2) = 1"
  by code_simp

lemma arrival_half: "double_floor (double_times (number_div 1 2) 200000) = 100000"
  by code_simp

lemma arrival_zero: "double_floor (double_times (number_div 0 n) spread) = 0"
  by (simp add: number_div_def double_times_def round_to_53_small double_floor_def)

lemma times_zero: "double_floor (double_times d 0) = 0"
  by (cases d) (simp add: double_times_def round_to_53_small double_floor_def)

lemma two_start:
  "start two_data slow_index_config =
     Some \<lparr> random_seed = 1250496027,
            entityStates = [''b'' \<mapsto> initial_state, ''a'' \<mapsto> initial_state], clusters = [],
            eventQueue = [\<lparr> time = 0, ev_type = entity_arrives, entityId = ''b'', data = None \<rparr>,
                          \<lparr> time = 100000, ev_type = entity_arrives, entityId = ''a'', data = None \<rparr>],
            currentTime = 0, nextClusterId = 1 \<rparr>"
  by (simp add: start_def two_data_def slow_index_config_def new_simulation_def shuffle_def
      scheduleEvent_def sort_by_def next_seed_42 shuffle_j_42 arrival_half arrival_zero
      number_sub_small Let_def)

text \<open>
  Claim C4, as stated, fails: two entities at layer 0, each in the other's similarity
  list. With an index delay of 1000 s, an arrival spread of 200 s and a follower wait of
  30 s, \<open>b\<close> arrives first, creates its cluster, and its wait and fallback end before \<open>a\<close>
  arrives (\<open>a\<close> has no cluster yet, so \<open>b\<close> stays leader). Then \<open>a\<close> arrives, does not see the
  unindexed \<open>b\<close>, creates its own cluster, and in its fallback reaches itself first in
  the lexicographic order. Both waits and fallbacks are over and two solo clusters remain.
\<close>

theorem C4_two_solo_clusters_counterexample:
  "map_outcome (\<lambda>s. (cluster_members s, membership [''a'', ''b''] s,
                       leader_flags [''a'', ''b''] s, eventQueue s))
     (run 20 compare_strings two_data slow_index_config) =
   Returned ([(1, [''b'']), (2, [''a''])], [(''a'', Some (Some 2)), (''b'', Some (Some 1))],
             [Some (True, False), Some (True, False)], [])"
  unfolding run_def two_start
  by (simp add: step_def processEvent_def two_data_def slow_index_config_def
      scheduleEvent_def sort_by_def update_state_def times_zero
      number_add_small number_sub_small getVisiblePeers_def similar_to_def slice0_def
      peer_visible_def
      create_and_wait_def createCluster_def getJitteryWait_def initial_state_def
      runFallback_def cluster_members_def membership_def leader_flags_def)

subsection \<open>A run of two entities\<close>

lemma arrival_50: "double_floor (double_times (number_div 1 2) 100) = 50"
  by code_simp

lemma quick_start:
  "start two_data quick_config =
     Some \<lparr> random_seed = 1250496027,
            entityStates = [''b'' \<mapsto> initial_state, ''a'' \<mapsto> initial_state], clusters = [],
            eventQueue = [\<lparr> time = 0, ev_type = entity_arrives, entityId = ''b'', data = None \<rparr>,
                          \<lparr> time = 50, ev_type = entity_arrives, entityId = ''a'', data = None \<rparr>],
            currentTime = 0, nextClusterId = 1 \<rparr>"
  by (simp add: start_def two_data_def quick_config_def new_simulation_def shuffle_def
      scheduleEvent_def sort_by_def next_seed_42 shuffle_j_42 arrival_50 arrival_zero
      number_sub_small Let_def)

lemma quick_six_steps:
  "Option.bind (start two_data quick_config) (steps 6 compare_strings two_data quick_config) =
     Some pair_state"
  unfolding quick_start
  by (simp add: eval_nat_numeral step_def processEvent_def two_data_def quick_config_def
      scheduleEvent_def sort_by_def update_state_def times_zero pair_state_def wait_ends_def
      number_add_small number_sub_small getVisiblePeers_def similar_to_def slice0_def
      peer_visible_def waiting_leader_def
      create_and_wait_def createCluster_def getJitteryWait_def initial_state_def)

lemma quick_run:
  "map_outcome (\<lambda>s. (cluster_members s, membership [''a'', ''b''] s))
     (run 20 compare_strings two_data quick_config) =
   Returned ([(2, [''a'', ''b''])], [(''a'', Some (Some 2)), (''b'', Some (Some 2))])"
  unfolding run_def quick_start
  by (simp add: step_def processEvent_def two_data_def quick_config_def
      scheduleEvent_def sort_by_def update_state_def times_zero
      number_add_small number_sub_small getVisiblePeers_def similar_to_def slice0_def
      peer_visible_def leave_and_join_def leaveCluster_def joinCluster_def set_add_def
      set_delete_def map_delete_def
      create_and_wait_def createCluster_def getJitteryWait_def initial_state_def
      runFallback_def cluster_members_def membership_def)

subsection \<open>Membership uniqueness\<close>

lemma map_of_map_set [simp]: "map_of (map_set k v xs) = (map_of xs)(k \<mapsto> v)"
  by (induction xs) (auto simp: fun_upd_twist)

lemma keys_map_set:
  "map fst (map_set k v xs) = (if k \<in> set (map fst xs) then map fst xs else map fst xs @ [k])"
  by (induction xs) (auto simp: rev_image_eqI)

lemma map_of_map_delete [simp]: "map_of (map_delete k xs) = (map_of xs)(k := None)"
  by (induction xs) (auto simp: map_delete_def)

lemma keys_map_delete: "map fst (map_delete k xs) = filter (\<lambda>c. c \<noteq> k) (map fst xs)"
  by (induction xs) (auto simp: map_delete_def)

lemma mset_insert_by [simp]: "mset (insert_by cmp x xs) = add_mset x (mset xs)"
  by (induction xs) auto

lemma mset_foldl_insert_by:
  "mset (foldl (\<lambda>acc x. insert_by cmp x acc) acc xs) = mset acc + mset xs"
  by (induction xs arbitrary: acc) auto

lemma mset_sort_by [simp]: "mset (sort_by cmp xs) = mset xs"
  by (simp add: sort_by_def mset_foldl_insert_by)

lemma set_sort_by [simp]: "set (sort_by cmp xs) = set xs"
  using mset_sort_by [of cmp xs] by (metis set_mset_mset)

lemma distinct_workers_mset:
  assumes "mset xs = mset ys"
  shows "distinct (map entityId (filter worker xs)) = distinct (map entityId (filter worker ys))"
proof -
  have "mset (map entityId (filter worker xs)) = mset (map entityId (filter worker ys))"
    using assms by (metis mset_filter mset_map)
  then show ?thesis by (rule mset_eq_imp_distinct_iff)
qed

lemma scheduleEvent_fields [simp]:
  "entityStates (scheduleEvent ev s) = entityStates s"
  "clusters (scheduleEvent ev s) = clusters s"
  "nextClusterId (scheduleEvent ev s) = nextClusterId s"
  "currentTime (scheduleEvent ev s) = currentTime s"
  "random_seed (scheduleEvent ev s) = random_seed s"
  "mset (eventQueue (scheduleEvent ev s)) = add_mset ev (mset (eventQueue s))"
  "set (eventQueue (scheduleEvent ev s)) = insert ev (set (eventQueue s))"
  by (simp_all add: scheduleEvent_def)

lemma scheduleEvent_workers:
  "distinct (map entityId (filter worker (eventQueue (scheduleEvent ev s)))) =
     distinct (map entityId (filter worker (ev # eventQueue s)))"
  by (rule distinct_workers_mset) simp

lemma cid_scheduleEvent [simp]: "cid (scheduleEvent ev s) = cid s"
  by (rule ext) (simp add: cid_def)


lemma sim_inv_alt:
  "sim_inv d s = (dom (entityStates s) = set (map eid (entities d)) \<and> core s \<and> queue_ok s)"
  by (auto simp: sim_inv_def core_def queue_ok_def)

lemma set_set_add [simp]: "set (set_add x xs) = insert x (set xs)"
  by (auto simp: set_add_def)

lemma set_set_delete [simp]: "set (set_delete x xs) = set xs - {x}"
  by (auto simp: set_delete_def)

lemma update_state_fields [simp]:
  "clusters (update_state e f s) = clusters s"
  "nextClusterId (update_state e f s) = nextClusterId s"
  "eventQueue (update_state e f s) = eventQueue s"
  "currentTime (update_state e f s) = currentTime s"
  "dom (entityStates (update_state e f s)) = dom (entityStates s)"
  by (auto simp: update_state_def split: option.splits)

lemma cid_update_state:
  "cid (update_state e f s) i =
     (if i = e then (case entityStates s e of None \<Rightarrow> None | Some st \<Rightarrow> clusterId (f st))
      else cid s i)"
  by (auto simp: update_state_def cid_def split: option.splits)

lemma cid_update_state_same [simp]:
  assumes "\<And>st. clusterId (f st) = clusterId st"
  shows "cid (update_state e f s) = cid s"
proof (rule ext)
  fix i
  show "cid (update_state e f s) i = cid s i"
    using assms by (cases "entityStates s e") (auto simp: update_state_def cid_def)
qed

lemma core_cong:
  assumes "clusters s' = clusters s" "nextClusterId s' = nextClusterId s" "cid s' = cid s"
  shows "core s' = core s"
  using assms by (simp add: core_def)

lemma event_ok_cong:
  assumes "dom (entityStates s') = dom (entityStates s)" "cid s' (entityId ev) = cid s (entityId ev)"
  shows "event_ok s' ev = event_ok s ev"
  using assms by (simp add: event_ok_def)

lemma queue_ok_cong:
  assumes "eventQueue s' = eventQueue s" "dom (entityStates s') = dom (entityStates s)"
    "cid s' = cid s"
  shows "queue_ok s' = queue_ok s"
  using assms by (simp add: queue_ok_def event_ok_def)

text \<open>Changing the cluster of one entity that has no pending worker event.\<close>

lemma queue_ok_move:
  assumes q: "queue_ok s" and "eventQueue s' = eventQueue s"
    and "dom (entityStates s') = dom (entityStates s)"
    and "\<And>i. i \<noteq> e \<Longrightarrow> cid s' i = cid s i"
    and "\<And>ev. ev \<in> set (eventQueue s) \<Longrightarrow> worker ev \<Longrightarrow> entityId ev \<noteq> e"
  shows "queue_ok s'"
  using assms by (auto simp: queue_ok_def event_ok_def)

lemma core_join:
  assumes c: "core s" and none: "cid s e = None" and st: "entityStates s e = Some st"
    and key: "k \<in> set (map fst (clusters s))"
  shows "\<exists>s'. joinCluster e k s = Some s' \<and> core s' \<and> cid s' = (cid s)(e := Some k) \<and>
     dom (entityStates s') = dom (entityStates s) \<and> eventQueue s' = eventQueue s"
proof -
  from key obtain cl where cl: "map_of (clusters s) k = Some cl"
    by (metis (no_types, lifting) image_iff list.set_map map_of_eq_None_iff not_None_eq)
  define s' where "s' = s\<lparr> clusters := map_set k (cl\<lparr> members := set_add e (members cl) \<rparr>) (clusters s),
      entityStates := (entityStates s)(e \<mapsto> st\<lparr> clusterId := Some k \<rparr>) \<rparr>"
  have j: "joinCluster e k s = Some s'"
    using cl st by (simp add: joinCluster_def s'_def)
  have ci: "cid s' = (cid s)(e := Some k)"
    by (rule ext) (simp add: cid_def s'_def)
  have keys: "map fst (clusters s') = map fst (clusters s)"
    using key by (simp add: s'_def keys_map_set)
  have "core s'"
    unfolding core_def
  proof (intro conjI ballI allI impI)
    show "distinct (map fst (clusters s'))" using c keys by (simp add: core_def)
  next
    fix c' assume "c' \<in> set (map fst (clusters s'))"
    then have "c' \<in> set (map fst (clusters s))" using keys by simp
    then have "c' < nextClusterId s" using c unfolding core_def by blast
    then show "c' < nextClusterId s'" by (simp add: s'_def)
  next
    fix c' cl' i assume m: "map_of (clusters s') c' = Some cl'"
    show "(i \<in> set (members cl')) = (cid s' i = Some c')"
    proof (cases "c' = k")
      case True
      then have "cl' = cl\<lparr> members := set_add e (members cl) \<rparr>" using m by (simp add: s'_def)
      then show ?thesis using True c cl none ci by (auto simp: core_def)
    next
      case False
      then have "map_of (clusters s) c' = Some cl'" using m by (simp add: s'_def)
      then show ?thesis using False c none ci by (auto simp: core_def)
    qed
  next
    fix i c' assume a: "cid s' i = Some c'"
    have "c' \<in> set (map fst (clusters s))"
    proof (cases "i = e")
      case True
      then show ?thesis using a ci key by simp
    next
      case False
      then have "cid s i = Some c'" using a ci by simp
      then show ?thesis using c unfolding core_def by blast
    qed
    then show "c' \<in> set (map fst (clusters s'))" using keys by simp
  qed
  then show ?thesis using j ci st by (auto simp: s'_def)
qed

lemma map_set_fresh: "k \<notin> fst ` set xs \<Longrightarrow> map_set k v xs = xs @ [(k, v)]"
  by (induction xs) auto

lemma solo_members:
  assumes c: "core s" and ce: "cid s e = Some k" and cl: "map_of (clusters s) k = Some cl"
    and len: "length (members cl) \<le> 1"
  shows "set (members cl) = {e}"
proof -
  have "e \<in> set (members cl)" using c ce cl unfolding core_def by blast
  then show ?thesis using len by (cases "members cl") auto
qed

lemma core_remove:
  assumes c: "core s" and ce: "cid s e = Some k" and cl: "map_of (clusters s) k = Some cl"
    and len: "length (members cl) \<le> 1" and st: "entityStates s e = Some st"
    and f: "clusterId (f st) = None"
  shows "core (update_state e f (s\<lparr> clusters := map_delete k (clusters s) \<rparr>))"
    and "cid (update_state e f (s\<lparr> clusters := map_delete k (clusters s) \<rparr>)) = (cid s)(e := None)"
proof -
  let ?s' = "update_state e f (s\<lparr> clusters := map_delete k (clusters s) \<rparr>)"
  have solo: "set (members cl) = {e}" using solo_members [OF c ce cl len] .
  show ci: "cid ?s' = (cid s)(e := None)"
    using st f by (auto simp: cid_def update_state_def)
  have cls: "clusters ?s' = map_delete k (clusters s)" by simp
  have nx: "nextClusterId ?s' = nextClusterId s" by simp
  show "core ?s'"
    unfolding core_def
  proof (intro conjI ballI allI impI)
    show "distinct (map fst (clusters ?s'))"
      using c by (simp add: core_def keys_map_delete)
  next
    fix c' assume "c' \<in> set (map fst (clusters ?s'))"
    then have "c' \<in> set (map fst (clusters s))" by (simp add: keys_map_delete)
    then have "c' < nextClusterId s" using c unfolding core_def by blast
    then show "c' < nextClusterId ?s'" by simp
  next
    fix c' cl' i assume m: "map_of (clusters ?s') c' = Some cl'"
    then have ne: "c' \<noteq> k" and m': "map_of (clusters s) c' = Some cl'"
      by (auto split: if_splits)
    have "(i \<in> set (members cl')) = (cid s i = Some c')" using c m' unfolding core_def by blast
    then show "(i \<in> set (members cl')) = (cid ?s' i = Some c')"
      using ci ne ce by auto
  next
    fix i c' assume a: "cid ?s' i = Some c'"
    then have ie: "i \<noteq> e" and a': "cid s i = Some c'" using ci by (auto split: if_splits)
    have k: "c' \<in> set (map fst (clusters s))" using c a' unfolding core_def by blast
    have "c' \<noteq> k"
    proof
      assume "c' = k"
      then have "i \<in> set (members cl)" using c cl a' unfolding core_def by blast
      then show False using solo ie by simp
    qed
    then show "c' \<in> set (map fst (clusters ?s'))" using k by (simp add: keys_map_delete)
  qed
qed

lemma leaveCluster_solo:
  assumes c: "core s" and ce: "cid s e = Some k" and cl: "map_of (clusters s) k = Some cl"
    and len: "length (members cl) \<le> 1"
  shows "leaveCluster e k s = s\<lparr> clusters := map_delete k (clusters s) \<rparr>"
proof -
  have "set (members cl) = {e}" using solo_members [OF c ce cl len] .
  then have "set_delete e (members cl) = []"
    by (metis Diff_cancel set_empty set_set_delete)
  then show ?thesis using cl by (simp add: leaveCluster_def)
qed

lemma joinCluster_forget:
  assumes "entityStates s e = Some st"
  shows "joinCluster e k s =
     joinCluster e k (update_state e (\<lambda>st. st\<lparr> clusterId := None \<rparr>) s)"
  using assms by (auto simp: joinCluster_def update_state_def split: option.splits)

lemma core_leave_join:
  assumes c: "core s" and ce: "cid s e = Some k" and cl: "map_of (clusters s) k = Some cl"
    and len: "length (members cl) \<le> 1" and st: "entityStates s e = Some st"
    and key: "theirs \<in> set (map fst (clusters s))" and ne: "theirs \<noteq> k"
  shows "\<exists>s'. leave_and_join e k theirs s = Some s' \<and> core s' \<and>
     cid s' = (cid s)(e := Some theirs) \<and>
     dom (entityStates s') = dom (entityStates s) \<and> eventQueue s' = eventQueue s"
proof -
  let ?s1 = "s\<lparr> clusters := map_delete k (clusters s) \<rparr>"
  let ?s0 = "update_state e (\<lambda>st. st\<lparr> clusterId := None \<rparr>) ?s1"
  have l: "leaveCluster e k s = ?s1" using leaveCluster_solo [OF c ce cl len] .
  have c0: "core ?s0" and ci0: "cid ?s0 = (cid s)(e := None)"
    using core_remove [OF c ce cl len st, of "\<lambda>st. st\<lparr> clusterId := None \<rparr>"] by simp_all
  have st0: "entityStates ?s0 e = Some (st\<lparr> clusterId := None \<rparr>)"
    using st by (simp add: update_state_def)
  have key0: "theirs \<in> set (map fst (clusters ?s0))"
    using key ne by (simp add: keys_map_delete)
  have none0: "cid ?s0 e = None" using ci0 by simp
  obtain s2 where j: "joinCluster e theirs ?s0 = Some s2" and c2: "core s2"
    and ci2: "cid s2 = (cid ?s0)(e := Some theirs)"
    and d2: "dom (entityStates s2) = dom (entityStates ?s0)"
    and q2: "eventQueue s2 = eventQueue ?s0"
    using core_join [OF c0 none0 st0 key0] by blast
  have j1: "joinCluster e theirs ?s1 = Some s2"
    using j joinCluster_forget [of ?s1 e st theirs] st by simp
  let ?s' = "update_state e (\<lambda>st. st\<lparr> isClusterLeader := False \<rparr>) s2"
  have r: "leave_and_join e k theirs s = Some ?s'"
    using l j1 by (simp add: leave_and_join_def)
  have ci': "cid ?s' = cid s2" by simp
  have "core ?s'" using c2 core_cong [of ?s' s2] ci' by simp
  moreover have "cid ?s' = (cid s)(e := Some theirs)" using ci' ci2 ci0 by simp
  moreover have "dom (entityStates ?s') = dom (entityStates s)" using d2 by simp
  moreover have "eventQueue ?s' = eventQueue s" using q2 by simp
  ultimately show ?thesis using r by blast
qed

lemma core_create:
  assumes c: "core s" and none: "cid s e = None" and st: "entityStates s e = Some st"
  shows "core (create_and_wait config e s)"
    and "cid (create_and_wait config e s) = (cid s)(e := Some (nextClusterId s))"
    and "dom (entityStates (create_and_wait config e s)) = dom (entityStates s)"
    and "\<exists>ev. mset (eventQueue (create_and_wait config e s)) = add_mset ev (mset (eventQueue s)) \<and>
           ev_type ev = follower_wait_ends \<and> entityId ev = e \<and>
           data ev = Some (ClusterIdData (nextClusterId s))"
proof -
  let ?k = "nextClusterId s"
  let ?new = "\<lparr> cluster_id = ?k, leaderId = e, members = [e], createdAt = currentTime s \<rparr>"
  let ?s1 = "s\<lparr> nextClusterId := ?k + 1, clusters := map_set ?k ?new (clusters s) \<rparr>"
  let ?f = "\<lambda>st. st\<lparr> clusterId := Some ?k, isClusterLeader := True,
                                 waitingForFollowers := True,
                                 followerWaitStartTime := Some (currentTime ?s1) \<rparr>"
  let ?s2 = "update_state e ?f ?s1"
  obtain w s3 where g: "getJitteryWait config ?s2 = (w, s3)"
    by (cases "getJitteryWait config ?s2")
  have s3: "s3 = ?s2\<lparr> random_seed := next_seed (random_seed ?s2) \<rparr>"
    using g by (auto simp: getJitteryWait_def Let_def)
  let ?ev = "\<lparr> time = number_add (currentTime s3) w, ev_type = follower_wait_ends,
               entityId = e, data = Some (ClusterIdData ?k) \<rparr>"
  have r: "create_and_wait config e s = scheduleEvent ?ev s3"
    using g by (simp add: create_and_wait_def createCluster_def Let_def)
  have fresh: "?k \<notin> set (map fst (clusters s))" using c unfolding core_def by blast
  have ci2: "cid ?s2 = (cid s)(e := Some ?k)"
    using st by (auto simp: cid_def update_state_def)
  have ci3: "cid s3 = cid ?s2" by (rule ext) (simp add: s3 cid_def)
  show ci: "cid (create_and_wait config e s) = (cid s)(e := Some ?k)"
    using r ci2 ci3 by simp
  show "dom (entityStates (create_and_wait config e s)) = dom (entityStates s)"
    using r by (simp add: s3)
  show "\<exists>ev. mset (eventQueue (create_and_wait config e s)) = add_mset ev (mset (eventQueue s)) \<and>
           ev_type ev = follower_wait_ends \<and> entityId ev = e \<and>
           data ev = Some (ClusterIdData (nextClusterId s))"
    using r by (intro exI [of _ ?ev]) (simp add: s3)
  have cls: "clusters (create_and_wait config e s) = clusters s @ [(?k, ?new)]"
  proof -
    have "map_set ?k ?new (clusters s) = clusters s @ [(?k, ?new)]"
      using fresh by (simp add: map_set_fresh)
    then show ?thesis using r by (simp add: s3)
  qed
  have nx: "nextClusterId (create_and_wait config e s) = Suc ?k"
    using r by (simp add: s3)
  show "core (create_and_wait config e s)"
    unfolding core_def
  proof (intro conjI ballI allI impI)
    show "distinct (map fst (clusters (create_and_wait config e s)))"
      using c fresh cls by (simp add: core_def)
  next
    fix c' assume "c' \<in> set (map fst (clusters (create_and_wait config e s)))"
    then have "c' = ?k \<or> c' \<in> set (map fst (clusters s))" using cls by auto
    then have "c' \<le> ?k" using c unfolding core_def by (metis less_or_eq_imp_le)
    then show "c' < nextClusterId (create_and_wait config e s)" using nx by simp
  next
    fix c' cl' i assume m: "map_of (clusters (create_and_wait config e s)) c' = Some cl'"
    show "(i \<in> set (members cl')) = (cid (create_and_wait config e s) i = Some c')"
    proof (cases "c' = ?k")
      case True
      have "map_of (clusters s) ?k = None" using fresh by (simp add: map_of_eq_None_iff)
      then have "cl' = ?new" using m cls True by (simp add: map_add_def)
      moreover have "cid s i \<noteq> Some ?k" using c fresh unfolding core_def by blast
      ultimately show ?thesis using True ci by auto
    next
      case False
      then have "map_of (clusters s) c' = Some cl'"
        using m cls by (auto simp: map_add_def split: option.splits)
      then have "(i \<in> set (members cl')) = (cid s i = Some c')"
        using c unfolding core_def by blast
      then show ?thesis using False ci none by auto
    qed
  next
    fix i c' assume a: "cid (create_and_wait config e s) i = Some c'"
    show "c' \<in> set (map fst (clusters (create_and_wait config e s)))"
    proof (cases "i = e")
      case True
      then show ?thesis using a ci cls by simp
    next
      case False
      then have "cid s i = Some c'" using a ci by simp
      then have "c' \<in> set (map fst (clusters s))" using c unfolding core_def by blast
      then show ?thesis using cls by simp
    qed
  qed
qed

lemma finish_move:
  assumes p: "popped d ev s"
    and w: "worker ev \<or> cid s' (entityId ev) = cid s (entityId ev)"
    and dm: "dom (entityStates s') = dom (entityStates s)"
    and c: "core s'"
    and ci: "\<And>i. i \<noteq> entityId ev \<Longrightarrow> cid s' i = cid s i"
    and q: "mset (eventQueue s') = mset (eventQueue s) + mset new"
    and n: "\<And>n. n \<in> set new \<Longrightarrow> entityId n = entityId ev \<and> event_ok s' n"
    and l: "length (filter worker new) \<le> (if worker ev then 1 else 0)"
  shows "sim_inv d s'"
proof -
  have d0: "distinct (map entityId (filter worker (ev # eventQueue s)))"
    using p by (simp add: popped_def)
  have old: "\<And>ev'. ev' \<in> set (eventQueue s) \<Longrightarrow> event_ok s ev'"
    using p by (simp add: popped_def)
  have sets: "set (eventQueue s') = set (eventQueue s) \<union> set new"
    using q by (metis set_mset_mset set_mset_union)
  have ok: "event_ok s' ev'" if "ev' \<in> set (eventQueue s')" for ev'
  proof (cases "ev' \<in> set new")
    case True
    then show ?thesis using n by blast
  next
    case False
    then have in_old: "ev' \<in> set (eventQueue s)" using that sets by blast
    have "cid s' (entityId ev') = cid s (entityId ev')" if "worker ev'"
    proof (cases "entityId ev' = entityId ev")
      case True
      show ?thesis
      proof (cases "worker ev")
        case True
        have "entityId ev' \<in> set (map entityId (filter worker (eventQueue s)))"
          using in_old \<open>worker ev'\<close> by auto
        then show ?thesis using d0 True \<open>entityId ev' = entityId ev\<close> by auto
      next
        case False
        then show ?thesis using w True by simp
      qed
    next
      case False
      then show ?thesis using ci by simp
    qed
    then show ?thesis using old [OF in_old] dm by (auto simp: event_ok_def)
  qed
  have "distinct (map entityId (filter worker (new @ eventQueue s)))"
  proof (cases "worker ev")
    case True
    then have notin: "entityId ev \<notin> set (map entityId (filter worker (eventQueue s)))"
      and dq: "distinct (map entityId (filter worker (eventQueue s)))"
      using d0 by auto
    have "length (filter worker new) \<le> 1" using l True by simp
    then have dn: "distinct (map entityId (filter worker new))"
      by (cases "filter worker new") (auto simp: le_Suc_eq)
    have "set (map entityId (filter worker new)) \<subseteq> {entityId ev}" using n by auto
    then show ?thesis using dn dq notin by auto
  next
    case False
    then have "filter worker new = []" using l by simp
    then show ?thesis using d0 False by simp
  qed
  moreover have "mset (eventQueue s') = mset (new @ eventQueue s)" using q by simp
  ultimately have "distinct (map entityId (filter worker (eventQueue s')))"
    using distinct_workers_mset by blast
  then show ?thesis using p dm c ok by (simp add: sim_inv_alt queue_ok_def popped_def)
qed

lemma find_entity:
  assumes "e \<in> set (map eid (entities d))"
  shows "\<exists>ent. find (\<lambda>x. eid x = e) (entities d) = Some ent"
proof (cases "find (\<lambda>x. eid x = e) (entities d)")
  case None
  then show ?thesis using assms by (auto simp: find_None_iff)
next
  case (Some a)
  then show ?thesis by simp
qed

lemma findClusteredPeer_Some:
  "findClusteredPeer s peers = Some (p, c) \<Longrightarrow> \<exists>i. cid s i = Some c"
  by (induction peers) (auto simp: cid_def split: option.splits)

lemma findOtherCluster_Some:
  "findOtherCluster s mine peers = Some t \<Longrightarrow> t \<noteq> mine \<and> (\<exists>i. cid s i = Some t)"
  by (induction peers) (auto simp: cid_def split: option.splits if_splits)

lemma lexLoop_Join:
  "lexLoop s e mine xs = JoinTheirs t \<Longrightarrow> t \<noteq> mine \<and> (\<exists>i. cid s i = Some t)"
  by (induction xs) (auto simp: cid_def split: option.splits if_splits)

lemma core_key: "core s \<Longrightarrow> cid s i = Some c \<Longrightarrow> c \<in> set (map fst (clusters s))"
  unfolding core_def by blast

lemma core_lookup:
  assumes "core s" "cid s i = Some c"
  shows "\<exists>cl. map_of (clusters s) c = Some cl"
proof -
  have "c \<in> fst ` set (clusters s)" using core_key [OF assms] by simp
  then show ?thesis by (cases "map_of (clusters s) c") (auto simp: map_of_eq_None_iff)
qed


lemma core_flags:
  assumes "core s" "\<And>st. clusterId (f st) = clusterId st"
  shows "core (update_state e f s)"
  using assms core_cong [of "update_state e f s" s] by simp

lemma popped_flags:
  assumes "popped d ev s" "\<And>st. clusterId (f st) = clusterId st"
  shows "popped d ev (update_state e f s)"
proof -
  let ?s' = "update_state e f s"
  have ci: "cid ?s' = cid s" using assms(2) by simp
  have eo: "event_ok ?s' x = event_ok s x" for x
    using event_ok_cong [of ?s' s x] ci by simp
  have "core ?s'" using assms core_flags [of s f e] by (simp add: popped_def)
  then show ?thesis using assms(1) eo unfolding popped_def by simp
qed

lemma join_inv:
  assumes p: "popped d ev s" and w: "worker ev" and none: "cid s (entityId ev) = None"
    and k: "cid s i = Some k"
  shows "\<exists>s2. joinCluster (entityId ev) k s = Some s2 \<and>
     sim_inv d (update_state (entityId ev) (\<lambda>st. st\<lparr> processing := False \<rparr>) s2)"
proof -
  let ?e = "entityId ev"
  have c: "core s" using p by (simp add: popped_def)
  obtain st where st: "entityStates s ?e = Some st"
    using p by (auto simp: popped_def event_ok_def)
  obtain s2 where j: "joinCluster ?e k s = Some s2" and c2: "core s2"
    and ci2: "cid s2 = (cid s)(?e := Some k)"
    and d2: "dom (entityStates s2) = dom (entityStates s)"
    and q2: "eventQueue s2 = eventQueue s"
    using core_join [OF c none st core_key [OF c k]] by blast
  let ?s' = "update_state ?e (\<lambda>st. st\<lparr> processing := False \<rparr>) s2"
  have "sim_inv d ?s'"
  proof (rule finish_move [OF p, where new = "[]"])
    show "worker ev \<or> cid ?s' ?e = cid s ?e" using w by simp
    show "dom (entityStates ?s') = dom (entityStates s)" using d2 by simp
    show "core ?s'" using core_flags [OF c2] by simp
    show "\<And>i. i \<noteq> ?e \<Longrightarrow> cid ?s' i = cid s i" using ci2 by simp
    show "mset (eventQueue ?s') = mset (eventQueue s) + mset []" using q2 by simp
    show "\<And>n. n \<in> set [] \<Longrightarrow> entityId n = ?e \<and> event_ok ?s' n" by simp
    show "length (filter worker []) \<le> (if worker ev then 1 else 0)" by simp
  qed
  then show ?thesis using j by blast
qed

lemma create_inv:
  assumes p: "popped d ev s" and w: "worker ev" and none: "cid s (entityId ev) = None"
  shows "sim_inv d (create_and_wait config (entityId ev) s)"
proof -
  let ?e = "entityId ev"
  let ?s' = "create_and_wait config ?e s"
  have c: "core s" using p by (simp add: popped_def)
  obtain st where st: "entityStates s ?e = Some st"
    using p by (auto simp: popped_def event_ok_def)
  note cc = core_create [OF c none st, of config]
  obtain n where n: "mset (eventQueue ?s') = add_mset n (mset (eventQueue s))"
    "ev_type n = follower_wait_ends" "entityId n = ?e"
    "data n = Some (ClusterIdData (nextClusterId s))"
    using cc(4) by blast
  show ?thesis
  proof (rule finish_move [OF p, where new = "[n]"])
    show "worker ev \<or> cid ?s' ?e = cid s ?e" using w by simp
    show "dom (entityStates ?s') = dom (entityStates s)" using cc(3) .
    show "core ?s'" using cc(1) .
    show "\<And>i. i \<noteq> ?e \<Longrightarrow> cid ?s' i = cid s i" using cc(2) by simp
    show "mset (eventQueue ?s') = mset (eventQueue s) + mset [n]" using n(1) by simp
    show "\<And>m. m \<in> set [n] \<Longrightarrow> entityId m = ?e \<and> event_ok ?s' m"
      using n cc(2,3) st by (auto simp: event_ok_def worker_def)
    show "length (filter worker [n]) \<le> (if worker ev then 1 else 0)" using w by simp
  qed
qed

lemma schedule_inv:
  assumes p: "popped d ev s" and w: "worker ev" and none: "cid s (entityId ev) = None"
    and n: "entityId n = entityId ev" "ev_type n \<noteq> follower_wait_ends"
  shows "sim_inv d (scheduleEvent n s)"
proof (rule finish_move [OF p, where new = "[n]"])
  let ?e = "entityId ev"
  let ?s' = "scheduleEvent n s"
  have c: "core s" using p by (simp add: popped_def)
  have st: "?e \<in> dom (entityStates s)"
    using p by (auto simp: popped_def event_ok_def)
  show "worker ev \<or> cid ?s' ?e = cid s ?e" using w by simp
  show "dom (entityStates ?s') = dom (entityStates s)" by simp
  show "core ?s'" using c core_cong [of ?s' s] by simp
  show "\<And>i. i \<noteq> ?e \<Longrightarrow> cid ?s' i = cid s i" by simp
  show "mset (eventQueue ?s') = mset (eventQueue s) + mset [n]" by simp
  show "\<And>m. m \<in> set [n] \<Longrightarrow> entityId m = ?e \<and> event_ok ?s' m"
    using n none st by (auto simp: event_ok_def)
  show "length (filter worker [n]) \<le> (if worker ev then 1 else 0)" using w by simp
qed

lemma unchanged_inv:
  assumes p: "popped d ev s"
  shows "sim_inv d s"
proof (rule finish_move [OF p, where new = "[]"])
  show "worker ev \<or> cid s (entityId ev) = cid s (entityId ev)" by simp
  show "core s" using p by (simp add: popped_def)
qed simp_all

lemma fallback_inv:
  assumes p: "popped d ev s" and w: "worker ev" and ce: "cid s (entityId ev) = Some k"
    and cl: "map_of (clusters s) k = Some cl" and len: "length (members cl) \<le> 1"
    and ent: "find (\<lambda>x. eid x = entityId ev) (entities d) = Some ent"
  shows "\<exists>s'. runFallback lc d (entityId ev) k layer s = Some s' \<and> sim_inv d s'"
proof -
  let ?e = "entityId ev"
  have c: "core s" using p by (simp add: popped_def)
  obtain st where st: "entityStates s ?e = Some st"
    using p by (auto simp: popped_def event_ok_def)
  have join: "\<exists>s'. leave_and_join ?e k t s = Some s' \<and> sim_inv d s'"
    if t: "t \<noteq> k" "\<exists>i. cid s i = Some t" for t
  proof -
    from t obtain i where "cid s i = Some t" by blast
    then have key: "t \<in> set (map fst (clusters s))" using core_key [OF c] by blast
    obtain s' where j: "leave_and_join ?e k t s = Some s'" and c': "core s'"
      and ci': "cid s' = (cid s)(?e := Some t)"
      and d': "dom (entityStates s') = dom (entityStates s)"
      and q': "eventQueue s' = eventQueue s"
      using core_leave_join [OF c ce cl len st key t(1)] by blast
    have "sim_inv d s'"
    proof (rule finish_move [OF p, where new = "[]"])
      show "worker ev \<or> cid s' ?e = cid s ?e" using w by simp
      show "dom (entityStates s') = dom (entityStates s)" using d' .
      show "core s'" using c' .
      show "\<And>i. i \<noteq> ?e \<Longrightarrow> cid s' i = cid s i" using ci' by simp
      show "mset (eventQueue s') = mset (eventQueue s) + mset []" using q' by simp
    qed simp_all
    then show ?thesis using j by blast
  qed
  let ?peers = "filter (peer_visible d s layer) (similar_to d ?e)"
  show ?thesis
  proof (cases "findOtherCluster s k ?peers")
    case (Some t)
    then show ?thesis using join [of t] findOtherCluster_Some [OF Some] st ent
      by (simp add: runFallback_def)
  next
    case None
    let ?sorted = "sort_by (\<lambda>a b. lc (eid a) (eid b)) (filter (\<lambda>x. kg_layer x = layer) (entities d))"
    show ?thesis
    proof (cases "lexLoop s ?e k ?sorted")
      case ReachedSelf
      then show ?thesis using None st ent unchanged_inv [OF p] by (simp add: runFallback_def)
    next
      case (JoinTheirs t)
      then show ?thesis using None st ent join [of t] lexLoop_Join [OF JoinTheirs]
        by (simp add: runFallback_def)
    next
      case LoopEnded
      show ?thesis
      proof (cases "length ?sorted = 1")
        case False
        then show ?thesis using None st ent LoopEnded unchanged_inv [OF p]
          by (simp add: runFallback_def)
      next
        case True
        let ?f = "\<lambda>st. st\<lparr> clusterId := None, isClusterLeader := False \<rparr>"
        let ?s' = "update_state ?e ?f (s\<lparr> clusters := map_delete k (clusters s) \<rparr>)"
        have r: "runFallback lc d ?e k layer s = Some ?s'"
          using None st ent LoopEnded True by (simp add: runFallback_def)
        note cr = core_remove [OF c ce cl len st, of ?f]
        have "sim_inv d ?s'"
        proof (rule finish_move [OF p, where new = "[]"])
          show "worker ev \<or> cid ?s' ?e = cid s ?e" using w by simp
          show "core ?s'" using cr(1) by simp
          show "\<And>i. i \<noteq> ?e \<Longrightarrow> cid ?s' i = cid s i" using cr(2) by simp
        qed simp_all
        then show ?thesis using r by blast
      qed
    qed
  qed
qed

lemma processEvent_inv:
  assumes p: "popped d ev s"
  shows "\<exists>s'. processEvent lc d config ev s = Some s' \<and> sim_inv d s'"
proof -
  let ?e = "entityId ev"
  have c: "core s" and dm: "dom (entityStates s) = set (map eid (entities d))"
    and ok: "event_ok s ev"
    using p by (simp_all add: popped_def)
  obtain st where st: "entityStates s ?e = Some st"
    using ok by (auto simp: event_ok_def)
  have "?e \<in> set (map eid (entities d))" using st dm by blast
  then obtain ent where ent: "find (\<lambda>x. eid x = ?e) (entities d) = Some ent"
    using find_entity by blast
  show ?thesis
  proof (cases "ev_type ev")
    case entity_arrives
    then have w: "worker ev" and none: "cid s ?e = None"
      using ok by (auto simp: worker_def event_ok_def)
    let ?s1 = "update_state ?e (\<lambda>st. st\<lparr> arrived := True \<rparr>) s"
    let ?idx = "\<lparr> time = number_add (currentTime ?s1) (indexDelayMs config),
                  ev_type = entity_indexed, entityId = ?e, data = None \<rparr>"
    let ?s2 = "scheduleEvent ?idx ?s1"
    let ?srch = "\<lparr> time = currentTime ?s2, ev_type = entity_searches, entityId = ?e,
                   data = None \<rparr>"
    let ?s' = "scheduleEvent ?srch ?s2"
    have r: "processEvent lc d config ev s = Some ?s'"
      using st ent entity_arrives by (simp add: processEvent_def Let_def)
    have "sim_inv d ?s'"
    proof (rule finish_move [OF p, where new = "[?idx, ?srch]"])
      show "worker ev \<or> cid ?s' ?e = cid s ?e" using w by simp
      show "dom (entityStates ?s') = dom (entityStates s)" by simp
      show "core ?s'" using c core_cong [of ?s' s] by simp
      show "\<And>i. i \<noteq> ?e \<Longrightarrow> cid ?s' i = cid s i" by simp
      show "mset (eventQueue ?s') = mset (eventQueue s) + mset [?idx, ?srch]" by simp
      show "\<And>n. n \<in> set [?idx, ?srch] \<Longrightarrow> entityId n = ?e \<and> event_ok ?s' n"
        using st none by (auto simp: event_ok_def worker_def)
      show "length (filter worker [?idx, ?srch]) \<le> (if worker ev then 1 else 0)"
        using w by (simp add: worker_def)
    qed
    then show ?thesis using r by blast
  next
    case entity_indexed
    let ?s' = "update_state ?e (\<lambda>st. st\<lparr> indexed := True \<rparr>) s"
    have r: "processEvent lc d config ev s = Some ?s'"
      using st ent entity_indexed by (simp add: processEvent_def)
    have "sim_inv d ?s'"
      using unchanged_inv [OF popped_flags [OF p, of "\<lambda>st. st\<lparr> indexed := True \<rparr>" ?e]]
      by simp
    then show ?thesis using r by blast
  next
    case entity_searches
    then have w: "worker ev" and none: "cid s ?e = None"
      using ok by (auto simp: worker_def event_ok_def)
    let ?s1 = "update_state ?e (\<lambda>st. st\<lparr> processing := True \<rparr>) s"
    have p1: "popped d ev ?s1" using popped_flags [OF p] by simp
    have none1: "cid ?s1 ?e = None" using none by simp
    obtain st1 where st1: "entityStates ?s1 ?e = Some st1"
      using st by (simp add: update_state_def)
    let ?peers = "getVisiblePeers d config ?s1 ?e (kg_layer ent)"
    show ?thesis
    proof (cases "length ?peers = 0")
      case True
      then have "processEvent lc d config ev s = Some (create_and_wait config ?e ?s1)"
        using st ent entity_searches by (simp add: processEvent_def Let_def)
      then show ?thesis using create_inv [OF p1 w none1] by blast
    next
      case False
      show ?thesis
      proof (cases "findClusteredPeer ?s1 ?peers")
        case None
        let ?n = "\<lparr> time = number_add (currentTime ?s1) (recheckDelayMs config),
                    ev_type = entity_rechecks, entityId = ?e,
                    data = Some (PeersData (map peerId ?peers)) \<rparr>"
        have "processEvent lc d config ev s = Some (scheduleEvent ?n ?s1)"
          using st ent entity_searches False None by (simp add: processEvent_def Let_def)
        moreover have "sim_inv d (scheduleEvent ?n ?s1)"
          using schedule_inv [OF p1 w none1, of ?n] by simp
        ultimately show ?thesis by blast
      next
        case (Some pc)
        obtain pp k where pc: "pc = (pp, k)" by (cases pc)
        obtain i where "cid ?s1 i = Some k"
          using findClusteredPeer_Some [of ?s1 ?peers pp k] Some pc by blast
        then obtain s2 where j: "joinCluster ?e k ?s1 = Some s2"
          and i2: "sim_inv d (update_state ?e (\<lambda>st. st\<lparr> processing := False \<rparr>) s2)"
          using join_inv [OF p1 w none1] by blast
        have "processEvent lc d config ev s =
            Some (update_state ?e (\<lambda>st. st\<lparr> processing := False \<rparr>) s2)"
          using st ent entity_searches False Some pc j by (simp add: processEvent_def Let_def)
        then show ?thesis using i2 by blast
      qed
    qed
  next
    case entity_rechecks
    then have w: "worker ev" and none: "cid s ?e = None"
      using ok by (auto simp: worker_def event_ok_def)
    let ?peers = "getVisiblePeers d config s ?e (kg_layer ent)"
    show ?thesis
    proof (cases "findClusteredPeer s ?peers")
      case None
      then have "processEvent lc d config ev s = Some (create_and_wait config ?e s)"
        using st ent entity_rechecks by (simp add: processEvent_def Let_def)
      then show ?thesis using create_inv [OF p w none] by blast
    next
      case (Some pc)
      obtain pp k where pc: "pc = (pp, k)" by (cases pc)
      obtain i where "cid s i = Some k"
        using findClusteredPeer_Some [of s ?peers pp k] Some pc by blast
      then obtain s2 where j: "joinCluster ?e k s = Some s2"
        and i2: "sim_inv d (update_state ?e (\<lambda>st. st\<lparr> processing := False \<rparr>) s2)"
        using join_inv [OF p w none] by blast
      have "processEvent lc d config ev s =
          Some (update_state ?e (\<lambda>st. st\<lparr> processing := False \<rparr>) s2)"
        using st ent entity_rechecks Some pc j by (simp add: processEvent_def Let_def)
      then show ?thesis using i2 by blast
    qed
  next
    case entity_creates_cluster
    then show ?thesis using unchanged_inv [OF p] by (simp add: processEvent_def)
  next
    case entity_joins_cluster
    then show ?thesis using unchanged_inv [OF p] by (simp add: processEvent_def)
  next
    case follower_wait_ends
    then have w: "worker ev" by (simp add: worker_def)
    from ok follower_wait_ends w obtain k where dk: "data ev = Some (ClusterIdData k)"
      and ce: "cid s ?e = Some k"
      by (auto simp: event_ok_def)
    obtain cl where cl: "map_of (clusters s) k = Some cl" using core_lookup [OF c ce] by blast
    let ?f = "\<lambda>st. st\<lparr> waitingForFollowers := False, processing := False \<rparr>"
    let ?s1 = "update_state ?e ?f s"
    have p1: "popped d ev ?s1" using popped_flags [OF p] by simp
    show ?thesis
    proof (cases "length (members cl) > 1")
      case True
      then have "processEvent lc d config ev s = Some ?s1"
        using st ent follower_wait_ends dk cl by (simp add: processEvent_def Let_def)
      then show ?thesis using unchanged_inv [OF p1] by blast
    next
      case False
      then have r: "processEvent lc d config ev s =
          runFallback lc d ?e k (kg_layer ent) ?s1"
        using st ent follower_wait_ends dk cl by (simp add: processEvent_def Let_def)
      have ce1: "cid ?s1 ?e = Some k" using ce by simp
      have cl1: "map_of (clusters ?s1) k = Some cl" using cl by simp
      have len: "length (members cl) \<le> 1" using False by simp
      show ?thesis using fallback_inv [OF p1 w ce1 cl1 len ent] r by simp
    qed
  qed
qed

lemma step_inv:
  assumes i: "sim_inv d s"
  shows "\<exists>s'. step lc d config s = Some s' \<and> sim_inv d s'"
proof (cases "eventQueue s")
  case Nil
  then show ?thesis using i by (simp add: step_def)
next
  case (Cons ev rest)
  let ?s0 = "s\<lparr> eventQueue := rest, currentTime := time ev \<rparr>"
  have ci: "cid ?s0 = cid s" by (rule ext) (simp add: cid_def)
  have "core ?s0" using i core_cong [of ?s0 s] ci by (simp add: sim_inv_alt)
  moreover have "event_ok ?s0 x = event_ok s x" for x
    using event_ok_cong [of ?s0 s x] ci by simp
  ultimately have "popped d ev ?s0"
    using i Cons by (simp add: popped_def sim_inv_alt queue_ok_def)
  then show ?thesis using processEvent_inv [of d ev ?s0 lc config] Cons by (simp add: step_def)
qed

lemma steps_inv:
  assumes "sim_inv d s"
  shows "\<exists>s'. steps n lc d config s = Some s' \<and> sim_inv d s'"
  using assms
proof (induction n arbitrary: s)
  case 0
  then show ?case by simp
next
  case (Suc n)
  show ?case
  proof (cases "eventQueue s = []")
    case True
    then show ?thesis using Suc.prems by simp
  next
    case False
    obtain s1 where s1: "step lc d config s = Some s1" "sim_inv d s1"
      using step_inv [OF Suc.prems] by blast
    then show ?thesis using Suc.IH [OF s1(2)] False by simp
  qed
qed

lemma shuffle_loop_mset:
  "n < length xs \<or> n = 0 \<Longrightarrow> shuffle_loop n xs seed = Some (ys, seed') \<Longrightarrow> mset ys = mset xs"
proof (induction n arbitrary: xs seed)
  case 0
  then show ?case by simp
next
  case (Suc n)
  let ?seed = "next_seed seed"
  let ?j = "double_floor (double_times (random_of_seed ?seed) (int (Suc n) + 1))"
  from Suc.prems(2) have j: "0 \<le> ?j" "nat ?j < length xs"
    by (auto simp: Let_def split: if_splits)
  let ?xs = "xs[Suc n := xs ! nat ?j, nat ?j := xs ! Suc n]"
  have r: "shuffle_loop n ?xs ?seed = Some (ys, seed')"
    using Suc.prems(2) j by (simp add: Let_def)
  have i: "Suc n < length xs" using Suc.prems(1) by simp
  have "mset ?xs = mset xs" using mset_swap [OF j(2) i] by simp
  moreover have "mset ys = mset ?xs"
    using Suc.IH [OF _ r] i by simp
  ultimately show ?case by simp
qed

lemma shuffle_mset:
  assumes "shuffle xs seed = Some (ys, seed')"
  shows "mset ys = mset xs"
proof (cases xs)
  case Nil
  then show ?thesis using assms by (simp add: shuffle_def)
next
  case (Cons a list)
  then show ?thesis using assms shuffle_loop_mset [of "length xs - 1" xs seed ys seed']
    by (simp add: shuffle_def)
qed

lemma schedule_arrivals_effect:
  "entityStates (schedule_arrivals config n i es s) = entityStates s \<and>
   clusters (schedule_arrivals config n i es s) = clusters s \<and>
   nextClusterId (schedule_arrivals config n i es s) = nextClusterId s \<and>
   (\<exists>evs. mset (eventQueue (schedule_arrivals config n i es s)) = mset (eventQueue s) + mset evs \<and>
      map entityId evs = map eid es \<and> (\<forall>ev\<in>set evs. ev_type ev = entity_arrives))"
proof (induction es arbitrary: i s)
  case Nil
  show ?case by simp
next
  case (Cons e es)
  let ?ev = "\<lparr> time = double_floor (double_times (number_div (int i) (int n)) (arrivalSpreadMs config)),
            ev_type = entity_arrives, entityId = eid e, data = None \<rparr>"
  let ?s1 = "scheduleEvent ?ev s"
  from Cons.IH [of "Suc i" ?s1] obtain evs where
    f: "entityStates (schedule_arrivals config n (Suc i) es ?s1) = entityStates ?s1"
       "clusters (schedule_arrivals config n (Suc i) es ?s1) = clusters ?s1"
       "nextClusterId (schedule_arrivals config n (Suc i) es ?s1) = nextClusterId ?s1"
    and q: "mset (eventQueue (schedule_arrivals config n (Suc i) es ?s1)) =
        mset (eventQueue ?s1) + mset evs"
    and m: "map entityId evs = map eid es" "\<forall>ev\<in>set evs. ev_type ev = entity_arrives"
    by blast
  have "mset (eventQueue (schedule_arrivals config n i (e # es) s)) =
      mset (eventQueue s) + mset (?ev # evs)"
    using q by simp
  moreover have "map entityId (?ev # evs) = map eid (e # es)" using m by simp
  moreover have "\<forall>ev\<in>set (?ev # evs). ev_type ev = entity_arrives" using m by simp
  ultimately show ?case using f by (intro conjI exI [of _ "?ev # evs"]) simp_all
qed

lemma dom_init_states:
  "dom (foldl (\<lambda>m entity. m(eid entity \<mapsto> initial_state)) m0 es) = dom m0 \<union> set (map eid es)"
  by (induction es arbitrary: m0) auto

lemma cid_init_states:
  "(\<And>i st. m0 i = Some st \<Longrightarrow> clusterId st = None) \<Longrightarrow>
   foldl (\<lambda>m entity. m(eid entity \<mapsto> initial_state)) m0 es i = Some st \<Longrightarrow> clusterId st = None"
proof (induction es arbitrary: m0)
  case Nil
  then show ?case by simp
next
  case (Cons e es)
  show ?case
  proof (rule Cons.IH [of "m0(eid e \<mapsto> initial_state)"])
    show "\<And>i st. (m0(eid e \<mapsto> initial_state)) i = Some st \<Longrightarrow> clusterId st = None"
      using Cons.prems(1) by (auto simp: initial_state_def split: if_splits)
    show "foldl (\<lambda>m entity. m(eid entity \<mapsto> initial_state)) (m0(eid e \<mapsto> initial_state)) es i = Some st"
      using Cons.prems(2) by (simp only: foldl_Cons)
  qed
qed

lemma start_inv:
  assumes dist: "distinct (map eid (entities d))" and st: "start d config = Some s"
  shows "sim_inv d s"
proof -
  let ?s0 = "new_simulation d config"
  from st obtain shuffled seed' where sh: "shuffle (entities d) (random_seed ?s0) = Some (shuffled, seed')"
    and s: "s = schedule_arrivals config (length shuffled) 0 shuffled (?s0\<lparr> random_seed := seed' \<rparr>)"
    by (auto simp: start_def Let_def split: option.splits)
  let ?s1 = "?s0\<lparr> random_seed := seed' \<rparr>"
  have ms: "mset shuffled = mset (entities d)" using shuffle_mset [OF sh] .
  from schedule_arrivals_effect [of config "length shuffled" 0 shuffled ?s1] s
  obtain evs where es: "entityStates s = entityStates ?s1" and cl: "clusters s = clusters ?s1"
    and nx: "nextClusterId s = nextClusterId ?s1"
    and q: "mset (eventQueue s) = mset (eventQueue ?s1) + mset evs"
    and m: "map entityId evs = map eid shuffled" "\<forall>ev\<in>set evs. ev_type ev = entity_arrives"
    by auto
  have dm: "dom (entityStates s) = set (map eid (entities d))"
    using es by (simp add: new_simulation_def dom_init_states)
  have none: "cid s i = None" for i
  proof (cases "entityStates s i")
    case None
    then show ?thesis by (simp add: cid_def)
  next
    case (Some a)
    then have "clusterId a = None"
      using es cid_init_states [of Map.empty "entities d" i a] by (simp add: new_simulation_def)
    then show ?thesis using Some by (simp add: cid_def)
  qed
  have c: "core s" using cl none by (simp add: core_def new_simulation_def)
  have q': "mset (eventQueue s) = mset evs" using q by (simp add: new_simulation_def)
  then have sets: "set (eventQueue s) = set evs" by (metis set_mset_mset)
  have ids: "set (map entityId evs) = set (map eid (entities d))"
    using m(1) ms by (metis mset_map set_mset_mset)
  have ok: "\<forall>ev\<in>set (eventQueue s). event_ok s ev"
  proof
    fix ev assume "ev \<in> set (eventQueue s)"
    then have e: "ev \<in> set evs" using sets by simp
    then have "entityId ev \<in> set (map entityId evs)" by simp
    then have "entityId ev \<in> dom (entityStates s)" using ids dm by simp
    then show "event_ok s ev" using m(2) e none by (simp add: event_ok_def)
  qed
  have w: "filter worker evs = evs" using m(2) by (simp add: worker_def)
  have "mset (map eid shuffled) = mset (map eid (entities d))" using ms by (metis mset_map)
  then have "distinct (map eid shuffled)" using dist mset_eq_imp_distinct_iff by blast
  then have "distinct (map entityId (filter worker evs))" using w m(1) by simp
  then have "distinct (map entityId (filter worker (eventQueue s)))"
    using distinct_workers_mset [OF q'] by simp
  then show ?thesis using dm c ok by (simp add: sim_inv_alt queue_ok_def)
qed

lemma distinct_same_key:
  assumes "distinct (map fst xs)" "\<forall>kv\<in>set xs. P kv \<longrightarrow> fst kv = c"
  shows "length (filter P xs) \<le> 1"
  using assms
proof (induction xs)
  case Nil
  then show ?case by simp
next
  case (Cons a xs)
  show ?case
  proof (cases "P a")
    case False
    then show ?thesis using Cons by simp
  next
    case True
    then have "fst a = c" using Cons.prems by simp
    have "\<not> P kv" if "kv \<in> set xs" for kv
    proof
      assume "P kv"
      then have "fst kv = fst a" using Cons.prems(2) that \<open>fst a = c\<close> by simp
      then have "fst a \<in> fst ` set xs" using that by (metis imageI)
      then show False using Cons.prems(1) by simp
    qed
    then have "filter P xs = []" by (simp add: filter_empty_conv)
    then show ?thesis using True by simp
  qed
qed

lemma sim_inv_unique:
  assumes i: "sim_inv d s"
  shows "membership_unique s"
  unfolding membership_unique_def
proof (intro allI conjI impI)
  fix e
  have c: "core s" using i by (simp add: sim_inv_alt)
  have dk: "distinct (map fst (clusters s))" using c by (simp add: core_def)
  have mem: "cid s e = Some (fst kv)" if "kv \<in> set (clusters s)" "e \<in> set (members (snd kv))" for kv
  proof -
    have "map_of (clusters s) (fst kv) = Some (snd kv)" using dk that(1) by simp
    then show ?thesis using c that(2) unfolding core_def by blast
  qed
  show "length (clusters_of s e) \<le> 1"
  proof (cases "cid s e")
    case None
    then have "filter (\<lambda>kv. e \<in> set (members (snd kv))) (clusters s) = []"
      using mem by (auto simp: filter_empty_conv)
    then show ?thesis by (simp add: clusters_of_def)
  next
    case (Some k)
    then have "\<forall>kv\<in>set (clusters s). e \<in> set (members (snd kv)) \<longrightarrow> fst kv = k"
      using mem by fastforce
    then show ?thesis using distinct_same_key [OF dk] by (simp add: clusters_of_def)
  qed
  fix st k assume a: "entityStates s e = Some st \<and> clusterId st = Some k"
  then have ce: "cid s e = Some k" by (simp add: cid_def)
  obtain cl where cl: "map_of (clusters s) k = Some cl" using core_lookup [OF c ce] by blast
  then have in_set: "(k, cl) \<in> set (clusters s)" by (rule map_of_SomeD)
  have e_in: "e \<in> set (members cl)" using c cl ce unfolding core_def by blast
  let ?f = "filter (\<lambda>kv. e \<in> set (members (snd kv))) (clusters s)"
  have "(k, cl) \<in> set ?f" using in_set e_in by simp
  moreover have "length ?f \<le> 1"
    using \<open>length (clusters_of s e) \<le> 1\<close> by (simp add: clusters_of_def)
  ultimately have "?f = [(k, cl)]"
    by (cases ?f) (auto simp: le_Suc_eq)
  then show "clusters_of s e = [k]" by (simp add: clusters_of_def)
qed

text \<open>
  Claim C5: for simulation data whose entity ids are pairwise distinct, every state of a
  run (the state after any number of events) exists, that is, no event raises, and in
  it every entity is a member of at most one cluster, and a non-null \<open>clusterId\<close> names
  the one cluster that holds the entity.
\<close>

theorem C5_membership_unique_invariant:
  assumes "distinct (map eid (entities sim_data))"
    and "start sim_data config = Some s0"
  shows "\<exists>s. steps n localeCompare sim_data config s0 = Some s \<and> membership_unique s"
proof -
  have "sim_inv sim_data s0" using start_inv [OF assms] .
  then obtain s where "steps n localeCompare sim_data config s0 = Some s" "sim_inv sim_data s"
    using steps_inv by blast
  then show ?thesis using sim_inv_unique by blast
qed

lemma two_data_distinct: "distinct (map eid (entities two_data))"
  by (simp add: two_data_def)

theorem C5_membership_unique_invariant_witness:
  "distinct (map eid (entities two_data)) \<and>
   Option.bind (start two_data quick_config) (steps 6 compare_strings two_data quick_config) =
     Some pair_state \<and>
   membership_unique pair_state \<and>
   clusters_of pair_state ''a'' = [2] \<and> clusters_of pair_state ''b'' = [1]"
proof -
  have s: "steps 6 compare_strings two_data quick_config
      \<lparr> random_seed = 1250496027,
        entityStates = [''b'' \<mapsto> initial_state, ''a'' \<mapsto> initial_state], clusters = [],
        eventQueue = [\<lparr> time = 0, ev_type = entity_arrives, entityId = ''b'', data = None \<rparr>,
                      \<lparr> time = 50, ev_type = entity_arrives, entityId = ''a'', data = None \<rparr>],
        currentTime = 0, nextClusterId = 1 \<rparr> = Some pair_state"
    using quick_six_steps unfolding quick_start by simp
  have c: "clusters_of pair_state ''a'' = [2] \<and> clusters_of pair_state ''b'' = [1]"
    by (simp add: clusters_of_def pair_state_def)
  show ?thesis
    using C5_membership_unique_invariant [OF two_data_distinct quick_start, of 6 compare_strings]
      s c two_data_distinct quick_six_steps
    by simp
qed

subsection \<open>Determinism of the simulation\<close>

lemma weight_pos: "0 < weight t"
  by (cases t) simp_all

lemma potential_mset:
  "potential s = sum_mset (image_mset (\<lambda>ev. weight (ev_type ev)) (mset (eventQueue s)))"
  by (simp add: potential_def sum_mset_sum_list [symmetric])

lemma potential_scheduleEvent [simp]:
  "potential (scheduleEvent ev s) = weight (ev_type ev) + potential s"
  by (simp add: potential_mset)

lemma potential_cong: "eventQueue s' = eventQueue s \<Longrightarrow> potential s' = potential s"
  by (simp add: potential_def)

lemma joinCluster_queue: "joinCluster e k s = Some s' \<Longrightarrow> eventQueue s' = eventQueue s"
  by (auto simp: joinCluster_def Let_def split: option.splits)

lemma leaveCluster_queue [simp]: "eventQueue (leaveCluster e k s) = eventQueue s"
  by (simp add: leaveCluster_def Let_def split: option.splits)

lemma leave_and_join_queue:
  "leave_and_join e k t s = Some s' \<Longrightarrow> eventQueue s' = eventQueue s"
  using joinCluster_queue [of e t "leaveCluster e k s"]
  by (auto simp: leave_and_join_def split: option.splits)

lemma runFallback_queue:
  "runFallback lc d e k layer s = Some s' \<Longrightarrow> eventQueue s' = eventQueue s"
  by (auto simp: runFallback_def Let_def leave_and_join_queue
      split: option.splits LexOutcome.splits if_splits)

lemma potential_create [simp]:
  "potential (create_and_wait config e s) = Suc (potential s)"
  by (simp add: create_and_wait_def createCluster_def getJitteryWait_def Let_def
      potential_mset)

lemma processEvent_potential:
  assumes "processEvent lc d config ev s = Some s'"
  shows "potential s' < weight (ev_type ev) + potential s"
proof (cases "ev_type ev = entity_creates_cluster \<or> ev_type ev = entity_joins_cluster")
  case True
  then show ?thesis using assms by (auto simp: processEvent_def)
next
  case False
  from assms False obtain st ent where st: "entityStates s (entityId ev) = Some st"
    and ent: "find (\<lambda>x. eid x = entityId ev) (entities d) = Some ent"
    by (auto simp: processEvent_def split: option.splits)
  note q = joinCluster_queue runFallback_queue
  show ?thesis
  proof (cases "ev_type ev")
    case entity_arrives
    then show ?thesis using assms st ent
      by (auto simp: processEvent_def Let_def potential_cong [of "update_state _ _ _"])
  next
    case entity_indexed
    then show ?thesis using assms st ent
      by (auto simp: processEvent_def potential_cong [of "update_state _ _ _"])
  next
    case entity_searches
    then show ?thesis using assms st ent
      by (auto simp: processEvent_def Let_def potential_cong [of "update_state _ _ _"]
          dest!: joinCluster_queue split: option.splits if_splits)
  next
    case entity_rechecks
    then show ?thesis using assms st ent
      by (auto simp: processEvent_def Let_def potential_cong [of "update_state _ _ _"]
          dest!: joinCluster_queue split: option.splits if_splits)
  next
    case entity_creates_cluster
    then show ?thesis using False by simp
  next
    case entity_joins_cluster
    then show ?thesis using False by simp
  next
    case follower_wait_ends
    then show ?thesis using assms st ent
      by (auto simp: processEvent_def Let_def potential_mset
          dest!: runFallback_queue split: option.splits if_splits EventData.splits)
  qed
qed

lemma potential_pos: "eventQueue s \<noteq> [] \<Longrightarrow> 0 < potential s"
  by (cases "eventQueue s") (simp_all add: potential_def weight_pos)

lemma step_potential:
  assumes "eventQueue s \<noteq> []" and "step lc d config s = Some s'"
  shows "potential s' < potential s"
proof -
  from assms(1) obtain ev rest where q: "eventQueue s = ev # rest" by (cases "eventQueue s") auto
  let ?s0 = "s\<lparr> eventQueue := rest, currentTime := time ev \<rparr>"
  from assms(2) q have "processEvent lc d config ev ?s0 = Some s'" by (simp add: step_def)
  from processEvent_potential [OF this] have "potential s' < weight (ev_type ev) + potential ?s0" .
  moreover have "potential s = weight (ev_type ev) + potential ?s0"
    using q by (simp add: potential_def)
  ultimately show ?thesis by simp
qed

lemma run_loop_terminates:
  "potential s \<le> fuel \<Longrightarrow> run_loop fuel lc d config s \<noteq> OutOfFuel"
proof (induction fuel arbitrary: s)
  case 0
  then have "eventQueue s = []" using potential_pos [of s] by auto
  then show ?case by simp
next
  case (Suc fuel)
  show ?case
  proof (cases "eventQueue s = []")
    case True
    then show ?thesis by simp
  next
    case False
    show ?thesis
    proof (cases "step lc d config s")
      case None
      then show ?thesis using False by simp
    next
      case (Some s')
      from step_potential [OF False Some] Suc.prems have "potential s' \<le> fuel" by simp
      from Suc.IH [OF this] show ?thesis using False Some by simp
    qed
  qed
qed

lemma run_loop_more_fuel:
  "run_loop fuel lc d config s \<noteq> OutOfFuel \<Longrightarrow>
   run_loop (fuel + k) lc d config s = run_loop fuel lc d config s"
proof (induction fuel arbitrary: s)
  case 0
  then have "eventQueue s = []" by (auto split: if_splits)
  then show ?case by simp
next
  case (Suc fuel)
  show ?case
  proof (cases "eventQueue s = []")
    case True
    then show ?thesis by simp
  next
    case False
    show ?thesis
    proof (cases "step lc d config s")
      case None
      then show ?thesis using False by simp
    next
      case (Some s')
      from Suc.prems False Some have "run_loop fuel lc d config s' \<noteq> OutOfFuel" by simp
      from Suc.IH [OF this] show ?thesis using False Some by simp
    qed
  qed
qed

lemma potential_schedule_arrivals:
  "potential (schedule_arrivals config n i es s) = 5 * length es + potential s"
  by (induction es arbitrary: i s) simp_all

lemma potential_start:
  assumes "start d config = Some s"
  shows "potential s = 5 * length (entities d)"
proof -
  from assms obtain shuffled seed' where
    sh: "shuffle (entities d) (random_seed (new_simulation d config)) = Some (shuffled, seed')"
    and s: "s = schedule_arrivals config (length shuffled) 0 shuffled
                  ((new_simulation d config)\<lparr> random_seed := seed' \<rparr>)"
    by (auto simp: start_def Let_def split: option.splits)
  from shuffle_mset [OF sh] have "length shuffled = length (entities d)"
    by (metis size_mset)
  then show ?thesis
    by (simp add: s potential_schedule_arrivals) (simp add: potential_def new_simulation_def)
qed

lemma run_terminates:
  "5 * length (entities d) \<le> fuel \<Longrightarrow> run fuel lc d config \<noteq> OutOfFuel"
proof (cases "start d config")
  case None
  then show ?thesis by (simp add: run_def)
next
  case (Some s)
  assume "5 * length (entities d) \<le> fuel"
  then have "potential s \<le> fuel" using potential_start [OF Some] by simp
  from run_loop_terminates [OF this] show ?thesis using Some by (simp add: run_def del: run_loop.simps)
qed

lemma run_more_fuel:
  "run fuel lc d config \<noteq> OutOfFuel \<Longrightarrow> run (fuel + k) lc d config = run fuel lc d config"
  by (cases "start d config") (simp_all add: run_def run_loop_more_fuel del: run_loop.simps)

lemma run_fuel_independent:
  assumes "run f1 lc d config \<noteq> OutOfFuel" and "run f2 lc d config \<noteq> OutOfFuel"
  shows "run f1 lc d config = run f2 lc d config"
  using run_more_fuel [OF assms(1), of f2] run_more_fuel [OF assms(2), of f1]
  by (simp add: add.commute)





subsection \<open>Two leaders\<close>

lemma one_cluster_iff:
  "one_cluster_of_both s x y \<longleftrightarrow>
     (\<exists>c ms. cluster_members s = [(c, ms)] \<and> set ms = {eid x, eid y} \<and>
        map_option clusterId (entityStates s (eid x)) = Some (Some c) \<and>
        map_option clusterId (entityStates s (eid y)) = Some (Some c))"
proof (cases "cluster_members s")
  case Nil
  then show ?thesis by (simp add: one_cluster_of_both_def)
next
  case (Cons p rest)
  obtain c ms where p: "p = (c, ms)" by (cases p)
  show ?thesis
  proof (cases rest)
    case Nil
    then show ?thesis using Cons p by (simp add: one_cluster_of_both_def)
  next
    case (Cons q rest')
    then show ?thesis using \<open>cluster_members s = p # rest\<close> p
      by (simp add: one_cluster_of_both_def)
  qed
qed

lemma two_solo_sym:
  "two_solo_leaders d s x y cx cy \<Longrightarrow> two_solo_leaders d s y x cy cx"
  by (auto simp: two_solo_leaders_def)

lemma sort_by_two:
  "sort_by cmp [a, b] = (if cmp b a < 0 then [b, a] else [a, b])"
  by (simp add: sort_by_def)

lemma find_in_pair:
  assumes "entities d = [x, y] \<or> entities d = [y, x]" "eid x \<noteq> eid y"
  shows "find (\<lambda>e. eid e = eid x) (entities d) = Some x"
    and "find (\<lambda>e. eid e = eid y) (entities d) = Some y"
    and "find (\<lambda>e. eid e = i) (entities d) = Some f \<Longrightarrow> i = eid x \<or> i = eid y"
  using assms by (auto split: if_splits)

lemma one_cluster_sym:
  "one_cluster_of_both s y x \<Longrightarrow> one_cluster_of_both s x y"
  by (auto simp: one_cluster_iff insert_commute)

lemma two_solo_pop:
  "two_solo_leaders d s x y cx cy \<Longrightarrow>
   two_solo_leaders d (s\<lparr> eventQueue := rest, currentTime := t \<rparr>) x y cx cy"
  by (simp add: two_solo_leaders_def cluster_members_def)

lemma one_cluster_pop:
  "one_cluster_of_both s x y \<Longrightarrow>
   one_cluster_of_both (s\<lparr> eventQueue := rest, currentTime := t \<rparr>) x y"
  by (simp add: one_cluster_iff cluster_members_def)

lemma is_indexed_pop [simp]:
  "is_indexed (s\<lparr> eventQueue := rest, currentTime := t \<rparr>) v = is_indexed s v"
  by (simp add: is_indexed_def)

lemma is_indexed_update:
  "is_indexed (update_state i f s) v =
     (if i = v then (case entityStates s v of None \<Rightarrow> False | Some st \<Rightarrow> indexed (f st))
      else is_indexed s v)"
  by (auto simp: is_indexed_def update_state_def split: option.splits)

text \<open>The semantic step of a solo leader finds the other leader exactly when the other
  is in the similarity list and indexed.\<close>

lemma visible_other:
  assumes h: "two_solo_leaders d s x y cx cy"
  shows "findOtherCluster s cx (filter (peer_visible d s (kg_layer x)) ps) =
     (if list_ex (\<lambda>p. peerId p = eid y) ps \<and> is_indexed s (eid y) then Some cy else None)"
proof -
  from h have ents: "entities d = [x, y] \<or> entities d = [y, x]" and ne: "eid x \<noteq> eid y"
    and lay: "kg_layer x = kg_layer y" and cne: "cx \<noteq> cy"
    by (auto simp: two_solo_leaders_def)
  from h obtain sx sy where sx: "entityStates s (eid x) = Some sx" "clusterId sx = Some cx"
    and sy: "entityStates s (eid y) = Some sy" "clusterId sy = Some cy"
    by (auto simp: two_solo_leaders_def)
  note fx = find_in_pair(1) [OF ents ne] and fy = find_in_pair(2) [OF ents ne]
  show ?thesis
  proof (induction ps)
    case Nil
    then show ?case by simp
  next
    case (Cons p ps)
    consider (y) "peerId p = eid y" | (x) "peerId p = eid x"
      | (other) "peerId p \<noteq> eid x" "peerId p \<noteq> eid y" by blast
    then show ?case
    proof cases
      case y
      have v: "peer_visible d s (kg_layer x) p = is_indexed s (eid y)"
        using y fy lay sy by (simp add: peer_visible_def is_indexed_def)
      show ?thesis
      proof (cases "is_indexed s (eid y)")
        case True
        then show ?thesis using v y sy cne by simp
      next
        case False
        then show ?thesis using v Cons.IH by simp
      qed
    next
      case x
      have "findOtherCluster s cx (p # qs) = findOtherCluster s cx qs" for qs
        using x sx by simp
      then show ?thesis using Cons.IH x ne by simp
    next
      case other
      have "find (\<lambda>e. eid e = peerId p) (entities d) = None"
        using find_in_pair(3) [OF ents ne, of "peerId p"] other
        by (cases "find (\<lambda>e. eid e = peerId p) (entities d)") auto
      then have "\<not> peer_visible d s (kg_layer x) p" by (simp add: peer_visible_def)
      then show ?thesis using Cons.IH other by simp
    qed
  qed
qed

lemma sorted_layer:
  assumes h: "two_solo_leaders d s x y cx cy"
    and so: "sort_by (\<lambda>a b. lc (eid a) (eid b)) (entities d) = [x, y]"
  shows "sort_by (\<lambda>a b. lc (eid a) (eid b)) (filter (\<lambda>e. kg_layer e = kg_layer x) (entities d))
           = [x, y]"
    and "sort_by (\<lambda>a b. lc (eid a) (eid b)) (filter (\<lambda>e. kg_layer e = kg_layer y) (entities d))
           = [x, y]"
proof -
  from h have "entities d = [x, y] \<or> entities d = [y, x]" and "kg_layer x = kg_layer y"
    by (auto simp: two_solo_leaders_def)
  then have "filter (\<lambda>e. kg_layer e = kg_layer x) (entities d) = entities d"
    and "filter (\<lambda>e. kg_layer e = kg_layer y) (entities d) = entities d"
    by auto
  then show "sort_by (\<lambda>a b. lc (eid a) (eid b))
      (filter (\<lambda>e. kg_layer e = kg_layer x) (entities d)) = [x, y]"
    and "sort_by (\<lambda>a b. lc (eid a) (eid b))
      (filter (\<lambda>e. kg_layer e = kg_layer y) (entities d)) = [x, y]"
    using so by simp_all
qed

text \<open>The fallback of the leader that sorts first, and of the one that sorts second.\<close>

lemma fallback_first:
  assumes h: "two_solo_leaders d s x y cx cy"
    and so: "sort_by (\<lambda>a b. lc (eid a) (eid b)) (entities d) = [x, y]"
  shows "runFallback lc d (eid x) cx (kg_layer x) s =
     (if listed d (eid x) (eid y) \<and> is_indexed s (eid y)
      then leave_and_join (eid x) cx cy s else Some s)"
proof -
  from h have ents: "entities d = [x, y] \<or> entities d = [y, x]" and ne: "eid x \<noteq> eid y"
    by (auto simp: two_solo_leaders_def)
  from h obtain sx where sx: "entityStates s (eid x) = Some sx"
    by (auto simp: two_solo_leaders_def)
  note fx = find_in_pair(1) [OF ents ne]
  have lex: "lexLoop s (eid x) cx [x, y] = ReachedSelf" by simp
  show ?thesis
    using sx fx lex
    by (simp add: runFallback_def visible_other [OF h] sorted_layer(1) [OF h so] listed_def
        del: lexLoop.simps)
qed

lemma fallback_second:
  assumes h: "two_solo_leaders d s x y cx cy"
    and so: "sort_by (\<lambda>a b. lc (eid a) (eid b)) (entities d) = [x, y]"
  shows "runFallback lc d (eid y) cy (kg_layer y) s =
     (if (listed d (eid y) (eid x) \<and> is_indexed s (eid x)) \<or> etype x \<noteq> ''cluster_leader''
      then leave_and_join (eid y) cy cx s else Some s)"
proof -
  from h have ents: "entities d = [x, y] \<or> entities d = [y, x]" and ne: "eid x \<noteq> eid y"
    and cne: "cx \<noteq> cy"
    by (auto simp: two_solo_leaders_def)
  from h obtain sx sy where sx: "entityStates s (eid x) = Some sx" "clusterId sx = Some cx"
    and sy: "entityStates s (eid y) = Some sy"
    by (auto simp: two_solo_leaders_def)
  note fy = find_in_pair(2) [OF ents ne]
  have lex: "lexLoop s (eid y) cy [x, y] =
      (if etype x = ''cluster_leader'' then ReachedSelf else JoinTheirs cx)"
    using ne sx cne by simp
  show ?thesis
    using sy fy lex
    by (simp add: runFallback_def visible_other [OF two_solo_sym [OF h]]
        sorted_layer(2) [OF h so] listed_def del: lexLoop.simps)
qed

text \<open>How the forecast \<open>will_merge\<close> changes when the first event leaves the queue.\<close>

lemma will_merge_empty: "eventQueue s = [] \<Longrightarrow> \<not> will_merge d s x y"
  by (simp add: will_merge_def sees_at_wait_end_def wait_pending_def)

lemma will_merge_pop_other:
  assumes "eventQueue s = ev # rest" "eventQueue s' = rest"
    and "ev_type ev \<noteq> entity_indexed" "ev_type ev \<noteq> follower_wait_ends"
    and "is_indexed s' (eid x) = is_indexed s (eid x)"
    and "is_indexed s' (eid y) = is_indexed s (eid y)"
  shows "will_merge d s' x y = will_merge d s x y"
  using assms by (simp add: will_merge_def sees_at_wait_end_def wait_pending_def)

lemma will_merge_pop_index:
  assumes "eventQueue s = ev # rest" "eventQueue s' = rest"
    and "ev_type ev = entity_indexed"
    and "is_indexed s' (eid x) = (entityId ev = eid x \<or> is_indexed s (eid x))"
    and "is_indexed s' (eid y) = (entityId ev = eid y \<or> is_indexed s (eid y))"
  shows "will_merge d s' x y = will_merge d s x y"
  using assms by (auto simp: will_merge_def sees_at_wait_end_def wait_pending_def)

lemma will_merge_pop_first:
  assumes "eventQueue s = ev # rest" "eventQueue s' = rest"
    and "ev_type ev = follower_wait_ends" "entityId ev = eid x" "eid x \<noteq> eid y"
    and "\<not> list_ex (\<lambda>e. ev_type e = follower_wait_ends \<and> entityId e = eid x) rest"
    and "is_indexed s' (eid x) = is_indexed s (eid x)"
    and "is_indexed s' (eid y) = is_indexed s (eid y)"
  shows "will_merge d s x y =
     (will_merge d s' x y \<or> (listed d (eid x) (eid y) \<and> is_indexed s (eid y)))"
  using assms by (auto simp: will_merge_def sees_at_wait_end_def wait_pending_def)

lemma will_merge_pop_second:
  assumes "eventQueue s = ev # rest" "eventQueue s' = rest"
    and "ev_type ev = follower_wait_ends" "entityId ev = eid y" "eid x \<noteq> eid y"
    and "\<not> list_ex (\<lambda>e. ev_type e = follower_wait_ends \<and> entityId e = eid y) rest"
    and "is_indexed s' (eid x) = is_indexed s (eid x)"
    and "is_indexed s' (eid y) = is_indexed s (eid y)"
  shows "will_merge d s x y =
     (will_merge d s' x y \<or> etype x \<noteq> ''cluster_leader'' \<or>
      (listed d (eid y) (eid x) \<and> is_indexed s (eid x)))"
  using assms by (auto simp: will_merge_def sees_at_wait_end_def wait_pending_def)

lemma two_solo_clusters:
  assumes "two_solo_leaders d s x y cx cy"
  obtains CX CY where "members CX = [eid x]" "members CY = [eid y]"
    "clusters s = [(cx, CX), (cy, CY)] \<or> clusters s = [(cy, CY), (cx, CX)]"
proof -
  from assms have "cluster_members s = [(cx, [eid x]), (cy, [eid y])] \<or>
       cluster_members s = [(cy, [eid y]), (cx, [eid x])]"
    by (simp add: two_solo_leaders_def)
  then show ?thesis
  proof
    assume "cluster_members s = [(cx, [eid x]), (cy, [eid y])]"
    then obtain p q where "clusters s = [p, q]" "fst p = cx" "members (snd p) = [eid x]"
      "fst q = cy" "members (snd q) = [eid y]"
      by (auto simp: cluster_members_def map_eq_Cons_conv)
    then show ?thesis using that [of "snd p" "snd q"] by (cases p, cases q) auto
  next
    assume "cluster_members s = [(cy, [eid y]), (cx, [eid x])]"
    then obtain p q where "clusters s = [p, q]" "fst p = cy" "members (snd p) = [eid y]"
      "fst q = cx" "members (snd q) = [eid x]"
      by (auto simp: cluster_members_def map_eq_Cons_conv)
    then show ?thesis using that [of "snd q" "snd p"] by (cases p, cases q) auto
  qed
qed

lemma two_solo_join:
  assumes h: "two_solo_leaders d s x y cx cy"
  shows "\<exists>s'. leave_and_join (eid x) cx cy s = Some s' \<and> one_cluster_of_both s' x y"
proof -
  from h have ne: "eid x \<noteq> eid y" and cne: "cx \<noteq> cy"
    by (auto simp: two_solo_leaders_def)
  from h obtain sx sy where sx: "entityStates s (eid x) = Some sx" "clusterId sx = Some cx"
    and sy: "entityStates s (eid y) = Some sy" "clusterId sy = Some cy"
    by (auto simp: two_solo_leaders_def)
  obtain CX CY where m: "members CX = [eid x]" "members CY = [eid y]"
    and cl: "clusters s = [(cx, CX), (cy, CY)] \<or> clusters s = [(cy, CY), (cx, CX)]"
    using two_solo_clusters [OF h] by blast
  from cl show ?thesis
  proof
    assume "clusters s = [(cx, CX), (cy, CY)]"
    then show ?thesis using m sx sy ne cne
      by (simp add: leave_and_join_def leaveCluster_def joinCluster_def set_delete_def
          map_delete_def set_add_def update_state_def one_cluster_iff
          cluster_members_def insert_commute)
  next
    assume "clusters s = [(cy, CY), (cx, CX)]"
    then show ?thesis using m sx sy ne cne
      by (simp add: leave_and_join_def leaveCluster_def joinCluster_def set_delete_def
          map_delete_def set_add_def update_state_def one_cluster_iff
          cluster_members_def insert_commute)
  qed
qed

lemma two_solo_update:
  assumes "two_solo_leaders d s x y cx cy" "\<And>st. clusterId (f st) = clusterId st"
  shows "two_solo_leaders d (update_state i f s) x y cx cy"
  using assms
  by (auto simp: two_solo_leaders_def update_state_def cluster_members_def split: option.splits)

lemma two_solo_event:
  assumes h: "two_solo_leaders d s x y cx cy"
  shows "processEvent lc d cfg (wait_ends t (eid x) cx) s =
     runFallback lc d (eid x) cx (kg_layer x)
       (update_state (eid x) (\<lambda>st. st\<lparr> waitingForFollowers := False, processing := False \<rparr>) s)"
proof -
  from h have ents: "entities d = [x, y] \<or> entities d = [y, x]" and ne: "eid x \<noteq> eid y"
    by (auto simp: two_solo_leaders_def)
  from h obtain sx where sx: "entityStates s (eid x) = Some sx"
    by (auto simp: two_solo_leaders_def)
  obtain CX CY where m: "members CX = [eid x]" "members CY = [eid y]"
    and cl: "clusters s = [(cx, CX), (cy, CY)] \<or> clusters s = [(cy, CY), (cx, CX)]"
    using two_solo_clusters [OF h] by blast
  from h have cne: "cx \<noteq> cy" by (simp add: two_solo_leaders_def)
  have look: "map_of (clusters s) cx = Some CX" using cl cne by auto
  show ?thesis
    using sx find_in_pair(1) [OF ents ne] look m
    by (simp add: processEvent_def wait_ends_def)
qed

lemma one_cluster_keep:
  assumes o: "one_cluster_of_both s x y"
    and ents: "entities d = [x, y] \<or> entities d = [y, x]" and ne: "eid x \<noteq> eid y"
  shows "\<exists>s2. processEvent lc d cfg (wait_ends t (eid y) cy) s = Some s2 \<and>
     one_cluster_of_both s2 x y"
proof -
  from o obtain c ms where cm: "cluster_members s = [(c, ms)]" and ms: "set ms = {eid x, eid y}"
    and ix: "map_option clusterId (entityStates s (eid x)) = Some (Some c)"
    and iy: "map_option clusterId (entityStates s (eid y)) = Some (Some c)"
    by (auto simp: one_cluster_iff)
  from cm obtain C where cl: "clusters s = [(c, C)]" and mc: "members C = ms"
    by (auto simp: cluster_members_def map_eq_Cons_conv)
  from iy obtain sy where sy: "entityStates s (eid y) = Some sy" by auto
  have "card (set ms) = 2" using ms ne by simp
  then have len: "length ms > 1" using card_length [of ms] by linarith
  let ?s1 = "update_state (eid y) (\<lambda>st. st\<lparr> waitingForFollowers := False, processing := False \<rparr>) s"
  have p: "processEvent lc d cfg (wait_ends t (eid y) cy) s = Some ?s1"
    using sy find_in_pair(2) [OF ents ne] cl mc len
    by (simp add: processEvent_def wait_ends_def)
  have "one_cluster_of_both ?s1 x y"
    using cm ms ix iy sy ne
    by (auto simp: one_cluster_iff update_state_def cluster_members_def)
  then show ?thesis using p by simp
qed


lemma one_cluster_step:
  assumes o: "one_cluster_of_both s x y" and inv: "sim_inv d s"
    and ents: "entities d = [x, y] \<or> entities d = [y, x]" and ne: "eid x \<noteq> eid y"
    and q: "eventQueue s \<noteq> []"
  shows "\<exists>s'. step lc d cfg s = Some s' \<and> one_cluster_of_both s' x y"
proof -
  from q obtain ev rest where q: "eventQueue s = ev # rest" by (cases "eventQueue s") auto
  let ?s0 = "s\<lparr> eventQueue := rest, currentTime := time ev \<rparr>"
  have st: "step lc d cfg s = processEvent lc d cfg ev ?s0" using q by (simp add: step_def)
  have o0: "one_cluster_of_both ?s0 x y" using o by (rule one_cluster_pop)
  from o obtain c where ix: "map_option clusterId (entityStates s (eid x)) = Some (Some c)"
    and iy: "map_option clusterId (entityStates s (eid y)) = Some (Some c)"
    by (auto simp: one_cluster_iff)
  then have cids: "cid s (eid x) = Some c" "cid s (eid y) = Some c"
    by (auto simp: cid_def)
  have ok: "event_ok s ev" using inv q by (simp add: sim_inv_def)
  have "entityId ev \<in> set (map eid (entities d))" using ok inv by (auto simp: event_ok_def sim_inv_def)
  then have who: "entityId ev = eid x \<or> entityId ev = eid y" using ents by auto
  obtain sx sy where sx: "entityStates ?s0 (eid x) = Some sx" and sy: "entityStates ?s0 (eid y) = Some sy"
    using ix iy by auto
  note fx = find_in_pair(1) [OF ents ne] and fy = find_in_pair(2) [OF ents ne]
  consider (noop) "ev_type ev = entity_creates_cluster \<or> ev_type ev = entity_joins_cluster"
    | (idx) "ev_type ev = entity_indexed" | (wait) "ev_type ev = follower_wait_ends"
    | (early) "ev_type ev = entity_arrives \<or> ev_type ev = entity_searches \<or>
         ev_type ev = entity_rechecks"
    by (cases "ev_type ev") auto
  then show ?thesis
  proof cases
    case noop
    then show ?thesis using st o0 by (auto simp: processEvent_def)
  next
    case idx
    let ?s1 = "update_state (entityId ev) (\<lambda>st. st\<lparr> indexed := True \<rparr>) ?s0"
    have "processEvent lc d cfg ev ?s0 = Some ?s1"
      using idx who sx sy fx fy by (auto simp: processEvent_def)
    moreover have "one_cluster_of_both ?s1 x y"
      using o0 by (auto simp: one_cluster_iff update_state_def cluster_members_def
          split: option.splits)
    ultimately show ?thesis using st by simp
  next
    case wait
    obtain c' where dt: "data ev = Some (ClusterIdData c')"
      using ok wait by (auto simp: event_ok_def worker_def)
    have ev: "ev = wait_ends (time ev) (entityId ev) c'"
      using wait dt by (simp add: wait_ends_def)
    from who show ?thesis
    proof
      assume "entityId ev = eid y"
      then have "ev = wait_ends (time ev) (eid y) c'" using ev by simp
      then show ?thesis using one_cluster_keep [OF o0 ents ne, of lc cfg "time ev" c'] st
        by simp
    next
      assume "entityId ev = eid x"
      then have e: "ev = wait_ends (time ev) (eid x) c'" using ev by simp
      have ents': "entities d = [y, x] \<or> entities d = [x, y]" using ents by blast
      have ne': "eid y \<noteq> eid x" using ne by simp
      from one_cluster_keep [OF one_cluster_sym [OF o0] ents' ne', of lc cfg "time ev" c']
      obtain s2 where "processEvent lc d cfg (wait_ends (time ev) (eid x) c') ?s0 = Some s2"
        "one_cluster_of_both s2 y x" by blast
      then show ?thesis using st e one_cluster_sym by simp
    qed
  next
    case early
    then have "cid s (entityId ev) = None" using ok by (auto simp: event_ok_def worker_def)
    then show ?thesis using who cids by auto
  qed
qed

lemma two_solo_step:
  assumes so: "sort_by (\<lambda>a b. lc (eid a) (eid b)) (entities d) = [x, y]"
    and ts: "two_solo_leaders d s x y cx cy" and inv: "sim_inv d s"
    and q: "eventQueue s \<noteq> []"
  shows "\<exists>s'. step lc d cfg s = Some s' \<and>
     ((two_solo_leaders d s' x y cx cy \<and> will_merge d s' x y = will_merge d s x y) \<or>
      (one_cluster_of_both s' x y \<and> will_merge d s x y))"
proof -
  from q obtain ev rest where q: "eventQueue s = ev # rest" by (cases "eventQueue s") auto
  let ?s0 = "s\<lparr> eventQueue := rest, currentTime := time ev \<rparr>"
  have st: "step lc d cfg s = processEvent lc d cfg ev ?s0" using q by (simp add: step_def)
  have ts0: "two_solo_leaders d ?s0 x y cx cy" using ts by (rule two_solo_pop)
  from ts have ents: "entities d = [x, y] \<or> entities d = [y, x]" and ne: "eid x \<noteq> eid y"
    and cne: "cx \<noteq> cy"
    by (auto simp: two_solo_leaders_def)
  from ts obtain sx sy where sx: "entityStates s (eid x) = Some sx" "clusterId sx = Some cx"
    and sy: "entityStates s (eid y) = Some sy" "clusterId sy = Some cy"
    by (auto simp: two_solo_leaders_def)
  have cids: "cid s (eid x) = Some cx" "cid s (eid y) = Some cy"
    using sx sy by (auto simp: cid_def)
  have sx0: "entityStates ?s0 (eid x) = Some sx" and sy0: "entityStates ?s0 (eid y) = Some sy"
    using sx sy by simp_all
  have ok: "event_ok s ev" using inv q by (simp add: sim_inv_def)
  have dist: "distinct (map entityId (filter worker (ev # rest)))"
    using inv q by (simp add: sim_inv_def)
  have "entityId ev \<in> set (map eid (entities d))" using ok inv by (auto simp: event_ok_def sim_inv_def)
  then have who: "entityId ev = eid x \<or> entityId ev = eid y" using ents by auto
  note fx = find_in_pair(1) [OF ents ne] and fy = find_in_pair(2) [OF ents ne]
  let ?done = "\<lambda>st. st\<lparr> waitingForFollowers := False, processing := False \<rparr>"
  consider (noop) "ev_type ev = entity_creates_cluster \<or> ev_type ev = entity_joins_cluster"
    | (idx) "ev_type ev = entity_indexed" | (wait) "ev_type ev = follower_wait_ends"
    | (early) "ev_type ev = entity_arrives \<or> ev_type ev = entity_searches \<or>
         ev_type ev = entity_rechecks"
    by (cases "ev_type ev") auto
  then show ?thesis
  proof cases
    case noop
    have "processEvent lc d cfg ev ?s0 = Some ?s0" using noop by (auto simp: processEvent_def)
    moreover have "will_merge d ?s0 x y = will_merge d s x y"
      using noop by (intro will_merge_pop_other [OF q]) auto
    ultimately show ?thesis using st ts0 by simp
  next
    case idx
    let ?s1 = "update_state (entityId ev) (\<lambda>st. st\<lparr> indexed := True \<rparr>) ?s0"
    have "processEvent lc d cfg ev ?s0 = Some ?s1"
      using idx who sx0 sy0 fx fy by (auto simp: processEvent_def)
    moreover have "two_solo_leaders d ?s1 x y cx cy" using two_solo_update [OF ts0] by simp
    moreover have "is_indexed ?s1 (eid x) = (entityId ev = eid x \<or> is_indexed s (eid x))"
      using sx by (simp add: is_indexed_update)
    moreover have "is_indexed ?s1 (eid y) = (entityId ev = eid y \<or> is_indexed s (eid y))"
      using sy by (simp add: is_indexed_update)
    ultimately have "processEvent lc d cfg ev ?s0 = Some ?s1" "two_solo_leaders d ?s1 x y cx cy"
      "will_merge d ?s1 x y = will_merge d s x y"
      using will_merge_pop_index [OF q _ idx, of ?s1 x y d] by simp_all
    then show ?thesis using st by simp
  next
    case early
    then have "cid s (entityId ev) = None" using ok by (auto simp: event_ok_def worker_def)
    then show ?thesis using who cids by auto
  next
    case wait
    obtain c where dt: "data ev = Some (ClusterIdData c)" and c: "cid s (entityId ev) = Some c"
      using ok wait by (auto simp: event_ok_def worker_def)
    have ev: "ev = wait_ends (time ev) (entityId ev) c"
      using wait dt by (simp add: wait_ends_def)
    have nw: "\<not> list_ex (\<lambda>e. ev_type e = follower_wait_ends \<and> entityId e = entityId ev) rest"
    proof
      assume "list_ex (\<lambda>e. ev_type e = follower_wait_ends \<and> entityId e = entityId ev) rest"
      then obtain e where e: "e \<in> set rest" "ev_type e = follower_wait_ends"
        "entityId e = entityId ev"
        by (auto simp: list_ex_iff)
      then have "e \<in> set (filter worker rest)" by (simp add: worker_def)
      then have "entityId ev \<in> set (map entityId (filter worker rest))"
        using e(3) by (metis image_eqI set_map)
      then show False using dist wait by (simp add: worker_def)
    qed
    from who show ?thesis
    proof
      assume ex: "entityId ev = eid x"
      then have e: "ev = wait_ends (time ev) (eid x) cx" using ev c cids by simp
      let ?s1 = "update_state (eid x) ?done ?s0"
      have ts1: "two_solo_leaders d ?s1 x y cx cy" using two_solo_update [OF ts0] by simp
      have iy: "is_indexed ?s1 (eid y) = is_indexed s (eid y)"
        using ne by (simp add: is_indexed_update)
      have ix: "is_indexed ?s1 (eid x) = is_indexed s (eid x)"
        using sx by (simp add: is_indexed_update, simp add: is_indexed_def)
      have p: "processEvent lc d cfg ev ?s0 =
          (if listed d (eid x) (eid y) \<and> is_indexed s (eid y)
           then leave_and_join (eid x) cx cy ?s1 else Some ?s1)"
        using two_solo_event [OF ts0, of lc cfg "time ev"] fallback_first [OF ts1 so] e iy
        by simp
      have wm: "will_merge d s x y =
          (will_merge d ?s1 x y \<or> (listed d (eid x) (eid y) \<and> is_indexed s (eid y)))"
        using nw ex by (intro will_merge_pop_first [OF q _ wait ex ne _ ix iy]) simp_all
      show ?thesis
      proof (cases "listed d (eid x) (eid y) \<and> is_indexed s (eid y)")
        case True
        obtain s' where "leave_and_join (eid x) cx cy ?s1 = Some s'" "one_cluster_of_both s' x y"
          using two_solo_join [OF ts1] by blast
        then have "processEvent lc d cfg ev ?s0 = Some s'" "one_cluster_of_both s' x y"
          using p True by simp_all
        moreover have "will_merge d s x y" using wm True by blast
        ultimately show ?thesis using st by simp
      next
        case False
        have "processEvent lc d cfg ev ?s0 = Some ?s1" unfolding p using False by (rule if_not_P)
        moreover have "will_merge d ?s1 x y = will_merge d s x y" using wm False by blast
        ultimately show ?thesis using st ts1 by simp
      qed
    next
      assume ey: "entityId ev = eid y"
      then have e: "ev = wait_ends (time ev) (eid y) cy" using ev c cids by simp
      let ?s1 = "update_state (eid y) ?done ?s0"
      have ts1: "two_solo_leaders d ?s1 x y cx cy" using two_solo_update [OF ts0] by simp
      have ix: "is_indexed ?s1 (eid x) = is_indexed s (eid x)"
        using ne by (simp add: is_indexed_update)
      have iy: "is_indexed ?s1 (eid y) = is_indexed s (eid y)"
        using sy by (simp add: is_indexed_update, simp add: is_indexed_def)
      have p: "processEvent lc d cfg ev ?s0 =
          (if (listed d (eid y) (eid x) \<and> is_indexed s (eid x)) \<or> etype x \<noteq> ''cluster_leader''
           then leave_and_join (eid y) cy cx ?s1 else Some ?s1)"
        using two_solo_event [OF two_solo_sym [OF ts0], of lc cfg "time ev"]
          fallback_second [OF ts1 so] e ix
        by simp
      have wm: "will_merge d s x y =
          (will_merge d ?s1 x y \<or> etype x \<noteq> ''cluster_leader'' \<or>
           (listed d (eid y) (eid x) \<and> is_indexed s (eid x)))"
        using nw ey by (intro will_merge_pop_second [OF q _ wait ey ne _ ix iy]) simp_all
      show ?thesis
      proof (cases "(listed d (eid y) (eid x) \<and> is_indexed s (eid x)) \<or>
          etype x \<noteq> ''cluster_leader''")
        case True
        obtain s' where "leave_and_join (eid y) cy cx ?s1 = Some s'" "one_cluster_of_both s' y x"
          using two_solo_join [OF two_solo_sym [OF ts1]] by blast
        then have "processEvent lc d cfg ev ?s0 = Some s'" "one_cluster_of_both s' x y"
          using p True one_cluster_sym by simp_all
        moreover have "will_merge d s x y" using wm True by blast
        ultimately show ?thesis using st by simp
      next
        case False
        have "processEvent lc d cfg ev ?s0 = Some ?s1" unfolding p using False by (rule if_not_P)
        moreover have "will_merge d ?s1 x y = will_merge d s x y" using wm False by blast
        ultimately show ?thesis using st ts1 by simp
      qed
    qed
  qed
qed

text \<open>From a state with one cluster of both, and from a state with two solo leaders, to
  the end of the run.\<close>

lemma one_cluster_run:
  assumes ents: "entities d = [x, y] \<or> entities d = [y, x]" and ne: "eid x \<noteq> eid y"
  shows "sim_inv d s \<Longrightarrow> one_cluster_of_both s x y \<Longrightarrow> potential s \<le> fuel \<Longrightarrow>
     \<exists>s'. run_loop fuel lc d cfg s = Returned s' \<and> one_cluster_of_both s' x y"
proof (induction fuel arbitrary: s)
  case 0
  then have "eventQueue s = []" using potential_pos [of s] by auto
  then show ?case using 0 by simp
next
  case (Suc fuel)
  show ?case
  proof (cases "eventQueue s = []")
    case True
    then show ?thesis using Suc.prems by simp
  next
    case False
    obtain s1 where s1: "step lc d cfg s = Some s1" "one_cluster_of_both s1 x y"
      using one_cluster_step [OF Suc.prems(2) Suc.prems(1) ents ne False] by blast
    have i1: "sim_inv d s1" using step_inv [OF Suc.prems(1), of lc cfg] s1(1) by simp
    have "potential s1 \<le> fuel" using step_potential [OF False s1(1)] Suc.prems(3) by simp
    from Suc.IH [OF i1 s1(2) this] show ?thesis using False s1(1) by simp
  qed
qed

lemma two_solo_run:
  assumes so: "sort_by (\<lambda>a b. lc (eid a) (eid b)) (entities d) = [x, y]"
  shows "sim_inv d s \<Longrightarrow> two_solo_leaders d s x y cx cy \<Longrightarrow> potential s \<le> fuel \<Longrightarrow>
     \<exists>s'. run_loop fuel lc d cfg s = Returned s' \<and>
       (if will_merge d s x y then one_cluster_of_both s' x y
        else two_solo_leaders d s' x y cx cy)"
proof (induction fuel arbitrary: s)
  case 0
  then have "eventQueue s = []" using potential_pos [of s] by auto
  then show ?case using 0 will_merge_empty [of s d x y] by simp
next
  case (Suc fuel)
  show ?case
  proof (cases "eventQueue s = []")
    case True
    then show ?thesis using Suc.prems will_merge_empty [of s d x y] by simp
  next
    case False
    from Suc.prems(2) have ents: "entities d = [x, y] \<or> entities d = [y, x]"
      and ne: "eid x \<noteq> eid y"
      by (auto simp: two_solo_leaders_def)
    obtain s1 where s1: "step lc d cfg s = Some s1"
      and alt: "(two_solo_leaders d s1 x y cx cy \<and> will_merge d s1 x y = will_merge d s x y) \<or>
        (one_cluster_of_both s1 x y \<and> will_merge d s x y)"
      using two_solo_step [OF so Suc.prems(2) Suc.prems(1) False, of cfg] by blast
    have i1: "sim_inv d s1" using step_inv [OF Suc.prems(1), of lc cfg] s1 by simp
    have p1: "potential s1 \<le> fuel" using step_potential [OF False s1] Suc.prems(3) by simp
    have r: "run_loop (Suc fuel) lc d cfg s = run_loop fuel lc d cfg s1"
      using False s1 by simp
    from alt show ?thesis
    proof
      assume a: "two_solo_leaders d s1 x y cx cy \<and> will_merge d s1 x y = will_merge d s x y"
      from Suc.IH [OF i1 conjunct1 [OF a] p1] show ?thesis using a r by simp
    next
      assume a: "one_cluster_of_both s1 x y \<and> will_merge d s x y"
      from one_cluster_run [OF ents ne i1 conjunct1 [OF a] p1, of lc cfg]
      show ?thesis using a r by simp
    qed
  qed
qed

lemma run_loop_empty:
  "run_loop fuel lc d cfg s = Returned s' \<Longrightarrow> eventQueue s' = []"
proof (induction fuel arbitrary: s)
  case 0
  then show ?case by (auto split: if_splits)
next
  case (Suc fuel)
  show ?case
  proof (cases "eventQueue s = []")
    case True
    then show ?thesis using Suc.prems by simp
  next
    case False
    then obtain s1 where "step lc d cfg s = Some s1" "run_loop fuel lc d cfg s1 = Returned s'"
      using Suc.prems by (auto split: option.splits)
    then show ?thesis using Suc.IH by blast
  qed
qed

text \<open>A run that has reached a state goes on from that state.\<close>

lemma run_loop_steps:
  "steps n lc d cfg s0 = Some s \<Longrightarrow> run_loop k lc d cfg s = Returned r \<Longrightarrow>
   \<exists>f. run_loop f lc d cfg s0 = Returned r"
proof (induction n arbitrary: s0)
  case 0
  then show ?case by auto
next
  case (Suc n)
  show ?case
  proof (cases "eventQueue s0 = []")
    case True
    then show ?thesis using Suc.prems by auto
  next
    case False
    then obtain s1 where s1: "step lc d cfg s0 = Some s1" "steps n lc d cfg s1 = Some s"
      using Suc.prems(1) by (auto split: option.splits)
    from Suc.IH [OF s1(2) Suc.prems(2)] obtain f where "run_loop f lc d cfg s1 = Returned r"
      by blast
    then have "run_loop (Suc f) lc d cfg s0 = Returned r" using False s1(1) by simp
    then show ?thesis by blast
  qed
qed

text \<open>
  Claim C4, amended. A simulation of exactly two entities at one layer, \<open>x\<close> whose id
  sorts first and \<open>y\<close>, that reaches a state \<open>s\<close> in which each is the only member of its
  own cluster: the run ends, and at its end (all waits and fallbacks are over) exactly
  one cluster remains, holding both, if and only if in \<open>s\<close> the wait of \<open>y\<close> is still to
  end and \<open>x\<close> is not of type \<open>cluster_leader\<close>, or one of the two, when its own wait ends,
  finds the other in its similarity list and indexed. Otherwise both solo clusters
  remain.
\<close>

theorem C4_two_solo_leaders_converge:
  assumes so: "sort_by (\<lambda>a b. localeCompare (eid a) (eid b)) (entities sim_data) = [x, y]"
    and st: "start sim_data config = Some s0"
    and reach: "steps n localeCompare sim_data config s0 = Some s"
    and ts: "two_solo_leaders sim_data s x y cx cy"
    and fuel: "5 * length (entities sim_data) \<le> fuel"
  shows "\<exists>s'. run fuel localeCompare sim_data config = Returned s' \<and> eventQueue s' = [] \<and>
     (if will_merge sim_data s x y then one_cluster_of_both s' x y
      else two_solo_leaders sim_data s' x y cx cy \<and> \<not> one_cluster_of_both s' x y)"
proof -
  let ?lc = localeCompare and ?d = sim_data
  from ts have "distinct (map eid (entities ?d))" by (auto simp: two_solo_leaders_def)
  then have i0: "sim_inv ?d s0" using st by (rule start_inv)
  from steps_inv [OF i0, of n ?lc config] reach have i: "sim_inv ?d s" by simp
  obtain s' where r: "run_loop (potential s) ?lc ?d config s = Returned s'"
    and fin: "if will_merge ?d s x y then one_cluster_of_both s' x y
              else two_solo_leaders ?d s' x y cx cy"
    using two_solo_run [OF so i ts order_refl, of config] by blast
  obtain f where f: "run_loop f ?lc ?d config s0 = Returned s'"
    using run_loop_steps [OF reach r] by blast
  have "run f ?lc ?d config = Returned s'" using f st by (simp add: run_def del: run_loop.simps)
  moreover have "run fuel ?lc ?d config \<noteq> OutOfFuel" using fuel by (rule run_terminates)
  ultimately have "run fuel ?lc ?d config = Returned s'"
    using run_fuel_independent [of fuel ?lc ?d config f] by simp
  moreover have "eventQueue s' = []" using r by (rule run_loop_empty)
  moreover have "\<not> one_cluster_of_both s' x y" if "two_solo_leaders ?d s' x y cx cy"
    using that by (auto simp: one_cluster_iff two_solo_leaders_def)
  ultimately show ?thesis using fin by auto
qed

lemma sorted_pair:
  "sort_by (\<lambda>a b. compare_strings (eid a) (eid b)) (entities two_data) = [ahab, pequod]"
  by (simp add: sort_by_def two_data_def ahab_def pequod_def)

lemma pair_state_two_solo: "two_solo_leaders two_data pair_state ahab pequod 2 1"
  by (simp add: two_solo_leaders_def two_data_def pair_state_def pequod_def ahab_def
      cluster_members_def waiting_leader_def)

lemma pair_state_will_merge: "will_merge two_data pair_state ahab pequod"
  by (simp add: will_merge_def wait_pending_def pair_state_def wait_ends_def ahab_def
      pequod_def)

lemma late_five_steps:
  "Option.bind (start two_data slow_index_config)
     (steps 5 compare_strings two_data slow_index_config) = Some late_state"
  unfolding two_start
  by (simp add: eval_nat_numeral step_def processEvent_def two_data_def slow_index_config_def
      scheduleEvent_def sort_by_def update_state_def times_zero late_state_def wait_ends_def
      number_add_small number_sub_small getVisiblePeers_def similar_to_def slice0_def
      peer_visible_def runFallback_def
      create_and_wait_def createCluster_def getJitteryWait_def initial_state_def)

lemma late_state_two_solo: "two_solo_leaders two_data late_state ahab pequod 2 1"
  by (simp add: two_solo_leaders_def two_data_def late_state_def pequod_def ahab_def
      cluster_members_def)

lemma late_state_no_merge: "\<not> will_merge two_data late_state ahab pequod"
  by (simp add: will_merge_def sees_at_wait_end_def wait_pending_def is_indexed_def
      listed_def similar_to_def two_data_def late_state_def wait_ends_def ahab_def pequod_def)

theorem C4_two_solo_leaders_converge_witness:
  "sort_by (\<lambda>a b. compare_strings (eid a) (eid b)) (entities two_data) = [ahab, pequod] \<and>
   Option.bind (start two_data quick_config) (steps 6 compare_strings two_data quick_config) =
     Some pair_state \<and>
   two_solo_leaders two_data pair_state ahab pequod 2 1 \<and>
   will_merge two_data pair_state ahab pequod \<and>
   (\<exists>s'. run 10 compare_strings two_data quick_config = Returned s' \<and> eventQueue s' = [] \<and>
      one_cluster_of_both s' ahab pequod) \<and>
   Option.bind (start two_data slow_index_config)
     (steps 5 compare_strings two_data slow_index_config) = Some late_state \<and>
   two_solo_leaders two_data late_state ahab pequod 2 1 \<and>
   \<not> will_merge two_data late_state ahab pequod \<and>
   (\<exists>s'. run 10 compare_strings two_data slow_index_config = Returned s' \<and> eventQueue s' = [] \<and>
      two_solo_leaders two_data s' ahab pequod 2 1 \<and> \<not> one_cluster_of_both s' ahab pequod)"
proof -
  have len: "5 * length (entities two_data) \<le> 10" by (simp add: two_data_def)
  obtain q where q: "start two_data quick_config = Some q"
    and q6: "steps 6 compare_strings two_data quick_config q = Some pair_state"
    using quick_six_steps by (cases "start two_data quick_config") simp_all
  obtain l where l: "start two_data slow_index_config = Some l"
    and l5: "steps 5 compare_strings two_data slow_index_config l = Some late_state"
    using late_five_steps by (cases "start two_data slow_index_config") simp_all
  have a: "\<exists>s'. run 10 compare_strings two_data quick_config = Returned s' \<and> eventQueue s' = [] \<and>
      one_cluster_of_both s' ahab pequod"
    using C4_two_solo_leaders_converge [OF sorted_pair q q6 pair_state_two_solo len]
      pair_state_will_merge by simp
  have b: "\<exists>s'. run 10 compare_strings two_data slow_index_config = Returned s' \<and>
      eventQueue s' = [] \<and>
      two_solo_leaders two_data s' ahab pequod 2 1 \<and> \<not> one_cluster_of_both s' ahab pequod"
    using C4_two_solo_leaders_converge [OF sorted_pair l l5 late_state_two_solo len]
      late_state_no_merge by simp
  show ?thesis
    by (intro conjI sorted_pair quick_six_steps pair_state_two_solo pair_state_will_merge a
        late_five_steps late_state_two_solo late_state_no_merge b)
qed

end
